theory Spec2Isabelle
  imports Complex_Main "HOL-Library.Multiset" "HOL-Library.Sublist"
begin

section \<open>Strings\<close>

text \<open>
  A JavaScript string is a sequence of UTF-16 code units. The model takes \<^typ>\<open>string\<close>
  (a list of 8-bit characters) and reads each character as the code unit of the same number,
  so it covers the strings whose code units are below 256, wherever the code looks into
  the code units (\<^verbatim>\<open>trim\<close>, \<^verbatim>\<open>toLowerCase\<close>, the key prefixes). Offsets count code units, as
  \<^verbatim>\<open>String.prototype.indexOf\<close>, \<^verbatim>\<open>substring\<close> and \<^verbatim>\<open>length\<close> do.
\<close>

text \<open>
  \<^verbatim>\<open>String.prototype.trim\<close> removes white space and line terminators from both ends. Of the
  code units below 256 these are TAB, LF, VT, FF, CR, SPACE and NO-BREAK SPACE.
\<close>

definition isWhiteSpace :: "char \<Rightarrow> bool" where
  "isWhiteSpace c \<longleftrightarrow> (of_char c :: nat) \<in> {9, 10, 11, 12, 13, 32, 160}"

definition trim :: "string \<Rightarrow> string" where
  "trim s = rev (dropWhile isWhiteSpace (rev (dropWhile isWhiteSpace s)))"

text \<open>
  \<^verbatim>\<open>String.prototype.toLowerCase\<close>, code unit by code unit: below 256 the upper-case letters
  are \<open>A\<close> to \<open>Z\<close> and \<open>0xC0\<close> to \<open>0xDE\<close> without the multiplication sign \<open>0xD7\<close>, each 32
  below its lower-case letter.
\<close>

definition toLowerChar :: "char \<Rightarrow> char" where
  "toLowerChar c =
     (let n = (of_char c :: nat)
      in if (65 \<le> n \<and> n \<le> 90) \<or> (192 \<le> n \<and> n \<le> 222 \<and> n \<noteq> 215)
         then char_of (n + 32) else c)"

definition toLowerCase :: "string \<Rightarrow> string" where
  "toLowerCase s = map toLowerChar s"

section \<open>JavaScript values\<close>

text \<open>
  The pipeline is generic in the item type and probes the items it is given: it reads
  properties that may be absent and asks for the type of what it finds. Items are therefore
  modelled as untyped values, as they come out of the schema validation of a JSON answer.
  An object is the list of its own properties in the order they are enumerated.
  Numbers are exact rationals: the rounding of IEEE doubles is outside the model, and
  \<open>NaN\<close> and the infinities, which JSON cannot carry, are not represented.
\<close>

datatype jsval =
    JUndefined
  | JNull
  | JBool bool
  | JNum rat
  | JStr string
  | JArr "jsval list"
  | JObj "(string \<times> jsval) list"

datatype js_error = TypeError

text \<open>
  Reading a property, \<^verbatim>\<open>v.name\<close>: a \<open>TypeError\<close> on \<open>undefined\<close> and \<open>null\<close>, the property's
  value on an object that has it, \<open>undefined\<close> otherwise. The names the pipeline reads
  (\<open>evidence\<close>, \<open>descriptionSpan\<close>, \<open>text\<close>, \<open>description\<close>, \<open>confidence\<close>) are no properties of
  a string, number, boolean or array, nor inherited from a prototype.
\<close>

fun getProp :: "jsval \<Rightarrow> string \<Rightarrow> js_error + jsval" where
  "getProp JUndefined name = Inl TypeError"
| "getProp JNull name = Inl TypeError"
| "getProp (JObj props) name =
     Inr (case map_of props name of None \<Rightarrow> JUndefined | Some v \<Rightarrow> v)"
| "getProp v name = Inr JUndefined"

text \<open>Optional chaining, \<^verbatim>\<open>v?.name\<close>: \<open>undefined\<close> where \<open>v\<close> is \<open>undefined\<close> or \<open>null\<close>.\<close>

definition optProp :: "jsval \<Rightarrow> string \<Rightarrow> jsval" where
  "optProp v name = (case getProp v name of Inl err \<Rightarrow> JUndefined | Inr x \<Rightarrow> x)"

text \<open>Truthiness (\<open>ToBoolean\<close>) and the \<^verbatim>\<open>typeof\<close> operator.\<close>

fun truthy :: "jsval \<Rightarrow> bool" where
  "truthy JUndefined = False"
| "truthy JNull = False"
| "truthy (JBool b) = b"
| "truthy (JNum n) = (n \<noteq> 0)"
| "truthy (JStr s) = (s \<noteq> [])"
| "truthy (JArr vs) = True"
| "truthy (JObj props) = True"

fun typeof :: "jsval \<Rightarrow> string" where
  "typeof JUndefined = ''undefined''"
| "typeof JNull = ''object''"
| "typeof (JBool b) = ''boolean''"
| "typeof (JNum n) = ''number''"
| "typeof (JStr s) = ''string''"
| "typeof (JArr vs) = ''object''"
| "typeof (JObj props) = ''object''"

text \<open>
  The method calls \<^verbatim>\<open>v.trim()\<close> and \<^verbatim>\<open>v.toLowerCase().trim()\<close>: only a string has these
  methods, calling them on anything else is a \<open>TypeError\<close>.
\<close>

fun callTrim :: "jsval \<Rightarrow> js_error + string" where
  "callTrim (JStr s) = Inr (trim s)"
| "callTrim v = Inl TypeError"

fun callToLowerCaseTrim :: "jsval \<Rightarrow> js_error + string" where
  "callToLowerCaseTrim (JStr s) = Inr (trim (toLowerCase s))"
| "callToLowerCaseTrim v = Inl TypeError"

subsection \<open>A rendering of values as JSON text\<close>

text \<open>
  \<^verbatim>\<open>JSON.stringify\<close> on the values above: a property whose value is \<open>undefined\<close> is left out
  of an object, \<open>undefined\<close> in an array is written \<open>null\<close>, strings are quoted with the
  escapes of \<open>QuoteJSONString\<close>. A number is written as JavaScript writes the double it stands
  for where it is an integer or a decimal fraction of at most 17 digits after the point (and
  between \<open>10\<^sup>-\<^sup>6\<close> and \<open>10\<^sup>2\<^sup>1\<close> in size, beyond which JavaScript turns to the exponent
  notation); any other rational, which no short decimal denotes, is written as numerator and
  denominator. The pipeline's functions below take the serializer as a parameter, and this
  rendering is the one the examples run with.
\<close>

definition digit_char :: "int \<Rightarrow> char" where
  "digit_char d = char_of (48 + d)"

function int_digits :: "int \<Rightarrow> string" where
  "int_digits n =
     (if n < 10 then [digit_char n] else int_digits (n div 10) @ [digit_char (n mod 10)])"
  by pat_completeness auto
termination
  by (relation "measure nat") auto

declare int_digits.simps [simp del]

text \<open>The digits of \<open>num / den\<close> after the point, for \<open>0 \<le> num < den\<close>, at most \<open>fuel\<close> of them.\<close>

fun frac_digits :: "nat \<Rightarrow> int \<Rightarrow> int \<Rightarrow> string" where
  "frac_digits 0 num den = []"
| "frac_digits (Suc fuel) num den =
     (if num = 0 then []
      else digit_char (num * 10 div den) # frac_digits fuel (num * 10 mod den) den)"

definition Number_toString :: "rat \<Rightarrow> string" where
  "Number_toString r =
     (let n = fst (quotient_of r);
          d = snd (quotient_of r);
          a = \<bar>n\<bar>;
          sign = (if n < 0 then ''-'' else [])
      in if d = 1 then sign @ int_digits a
         else if (10 ^ 17) mod d = 0
         then sign @ int_digits (a div d) @ ''.'' @ frac_digits 17 (a mod d) d
         else sign @ int_digits a @ ''/'' @ int_digits d)"

definition hex_char :: "nat \<Rightarrow> char" where
  "hex_char d = (if d < 10 then char_of (48 + d) else char_of (87 + d))"

definition escape_char :: "char \<Rightarrow> string" where
  "escape_char c =
     (let n = (of_char c :: nat)
      in if n = 34 then [CHR 0x5C, CHR 0x22]
         else if n = 92 then [CHR 0x5C, CHR 0x5C]
         else if n = 8 then [CHR 0x5C, CHR ''b'']
         else if n = 9 then [CHR 0x5C, CHR ''t'']
         else if n = 10 then [CHR 0x5C, CHR ''n'']
         else if n = 12 then [CHR 0x5C, CHR ''f'']
         else if n = 13 then [CHR 0x5C, CHR ''r'']
         else if n < 32 then [CHR 0x5C, CHR ''u'', CHR ''0'', CHR ''0'', hex_char (n div 16), hex_char (n mod 16)]
         else [c])"

definition QuoteJSONString :: "string \<Rightarrow> string" where
  "QuoteJSONString s = [CHR 0x22] @ concat (map escape_char s) @ [CHR 0x22]"

fun join_commas :: "string list \<Rightarrow> string" where
  "join_commas [] = []"
| "join_commas [x] = x"
| "join_commas (x # y # ys) = x @ '','' @ join_commas (y # ys)"

fun SerializeJSONProperty :: "jsval \<Rightarrow> string option" where
  "SerializeJSONProperty JUndefined = None"
| "SerializeJSONProperty JNull = Some ''null''"
| "SerializeJSONProperty (JBool b) = Some (if b then ''true'' else ''false'')"
| "SerializeJSONProperty (JNum r) = Some (Number_toString r)"
| "SerializeJSONProperty (JStr s) = Some (QuoteJSONString s)"
| "SerializeJSONProperty (JArr vs) =
     Some (''['' @ join_commas (map (\<lambda>v. case SerializeJSONProperty v of
                                          None \<Rightarrow> ''null''
                                        | Some t \<Rightarrow> t) vs) @ '']'')"
| "SerializeJSONProperty (JObj props) =
     Some (''{'' @ join_commas (concat (map (\<lambda>p. case SerializeJSONProperty (snd p) of
                                                  None \<Rightarrow> []
                                                | Some t \<Rightarrow> [QuoteJSONString (fst p) @ '':'' @ t]) props))
           @ ''}'')"

text \<open>In a template literal the result \<open>undefined\<close> reads \<open>undefined\<close>.\<close>

definition JSON_stringify :: "jsval \<Rightarrow> string" where
  "JSON_stringify v = (case SerializeJSONProperty v of None \<Rightarrow> ''undefined'' | Some t \<Rightarrow> t)"

section \<open>Source grounding (lib/core/grounding.ts)\<close>

text \<open>
  The functions of this module compare and count code units and never look into them; they
  are modelled for any type \<open>'c\<close> of code units, the 16-bit ones of JavaScript among them.
\<close>

record 'c EvidenceSpan =
  "text" :: "'c list"
  startOffset :: int
  endOffset :: int

text \<open>
  The search loop of \<^verbatim>\<open>String.prototype.indexOf\<close>: candidates \<open>i\<close>, ascending from the start
  index, as long as the search string still fits into the source.
\<close>

function StringIndexOf :: "'c list \<Rightarrow> 'c list \<Rightarrow> nat \<Rightarrow> nat option" where
  "StringIndexOf s searchValue i =
     (if length s < i + length searchValue then None
      else if take (length searchValue) (drop i s) = searchValue then Some i
      else StringIndexOf s searchValue (Suc i))"
  by pat_completeness auto
termination
  by (relation "measure (\<lambda>(s, searchValue, i). Suc (length s) - i)") auto

declare StringIndexOf.simps [simp del]

text \<open>
  \<^verbatim>\<open>s.indexOf(searchString, position)\<close>: the position is clamped into \<open>[0, length s]\<close>,
  the result is \<open>-1\<close> when there is no match. The position is an integer here: offsets are
  integers throughout the repository.
\<close>

definition indexOf :: "'c list \<Rightarrow> 'c list \<Rightarrow> int \<Rightarrow> int" where
  "indexOf s searchString position =
     (let len = int (length s);
          start = min (max position 0) len
      in case StringIndexOf s searchString (nat start) of
           None \<Rightarrow> - 1
         | Some i \<Rightarrow> int i)"

text \<open>\<^verbatim>\<open>s.substring(a, b)\<close>: both arguments clamped into \<open>[0, length s]\<close>, swapped if needed.\<close>

definition substring :: "'c list \<Rightarrow> int \<Rightarrow> int \<Rightarrow> 'c list" where
  "substring s a b =
     (let len = int (length s);
          finalStart = min (max a 0) len;
          finalEnd = min (max b 0) len;
          lo = min finalStart finalEnd;
          hi = max finalStart finalEnd
      in take (nat (hi - lo)) (drop (nat lo) s))"

text \<open>
  \<^verbatim>\<open>computeEvidenceOffsets(sourceText, evidenceText, startFrom = 0)\<close>; \<open>null\<close> is \<open>None\<close>.
  A string is falsy exactly when it is empty.
\<close>

definition computeEvidenceOffsets :: "'c list \<Rightarrow> 'c list \<Rightarrow> int \<Rightarrow> 'c EvidenceSpan option" where
  "computeEvidenceOffsets sourceText evidenceText startFrom =
     (if evidenceText = [] \<or> sourceText = [] then None
      else let startOffset = indexOf sourceText evidenceText startFrom
           in if startOffset = - 1 then None
              else Some \<lparr> text = evidenceText,
                          startOffset = startOffset,
                          endOffset = startOffset + int (length evidenceText) \<rparr>)"

text \<open>The search string occurs in the source at offset \<open>k\<close>.\<close>

definition occurs_at :: "'c list \<Rightarrow> 'c list \<Rightarrow> nat \<Rightarrow> bool" where
  "occurs_at s e k \<longleftrightarrow> k + length e \<le> length s \<and> take (length e) (drop k s) = e"

section \<open>Deduplication (lib/core/extraction-pipeline.ts, deduplicateItems)\<close>

text \<open>
  The key of one item, as the loop body derives it. \<^verbatim>\<open>JSON.stringify\<close> is a parameter: the
  pipeline hands the whole item to it and uses the text it returns.
\<close>

definition itemKey :: "(jsval \<Rightarrow> string) \<Rightarrow> jsval \<Rightarrow> js_error + string" where
  "itemKey stringify item =
     (case getProp item ''evidence'' of
        Inl err \<Rightarrow> Inl err
      | Inr evidence \<Rightarrow>
          if truthy (optProp (optProp evidence ''descriptionSpan'') ''text'')
          then (case callTrim (optProp (optProp evidence ''descriptionSpan'') ''text'') of
                  Inl err \<Rightarrow> Inl err
                | Inr t \<Rightarrow> Inr (''evidence:'' @ t))
          else (case getProp item ''description'' of
                  Inl err \<Rightarrow> Inl err
                | Inr description \<Rightarrow>
                    if typeof description = ''string''
                    then (case callToLowerCaseTrim description of
                            Inl err \<Rightarrow> Inl err
                          | Inr d \<Rightarrow> Inr (''desc:'' @ d))
                    else Inr (''json:'' @ stringify item)))"

text \<open>
  The loop over the items, with the set \<open>seen\<close> of keys and the list \<open>deduplicated\<close> as its
  state. A \<open>TypeError\<close> in the body leaves the loop and the function.
\<close>

fun dedupe_loop ::
  "(jsval \<Rightarrow> string) \<Rightarrow> jsval list \<Rightarrow> string set \<Rightarrow> jsval list \<Rightarrow> js_error + jsval list"
where
  "dedupe_loop stringify [] seen deduplicated = Inr deduplicated"
| "dedupe_loop stringify (item # items) seen deduplicated =
     (case itemKey stringify item of
        Inl err \<Rightarrow> Inl err
      | Inr key \<Rightarrow>
          if key \<notin> seen
          then dedupe_loop stringify items (insert key seen) (deduplicated @ [item])
          else dedupe_loop stringify items seen deduplicated)"

definition deduplicateItems :: "(jsval \<Rightarrow> string) \<Rightarrow> jsval list \<Rightarrow> js_error + jsval list" where
  "deduplicateItems stringify items = dedupe_loop stringify items {} []"

text \<open>Running a fallible step on the result of another: an error of the first is the result.\<close>

definition bindE :: "'e + 'a \<Rightarrow> ('a \<Rightarrow> 'e + 'b) \<Rightarrow> 'e + 'b" where
  "bindE m f = (case m of Inl err \<Rightarrow> Inl err | Inr x \<Rightarrow> f x)"

text \<open>
  First occurrences by position: position \<open>i\<close> of a list is kept when the key of its element
  is not in \<open>seen\<close> and no earlier position carries the same key.
\<close>

definition keptPositions :: "('a \<Rightarrow> 'k) \<Rightarrow> 'k set \<Rightarrow> 'a list \<Rightarrow> nat list" where
  "keptPositions key seen xs =
     filter (\<lambda>i. key (xs ! i) \<notin> seen \<and> (\<forall>j \<in> set [0..<i]. key (xs ! j) \<noteq> key (xs ! i)))
       [0..<length xs]"

definition firstOccurrences :: "('a \<Rightarrow> 'k) \<Rightarrow> 'a list \<Rightarrow> 'a list" where
  "firstOccurrences key xs = map (\<lambda>i. xs ! i) (keptPositions key {} xs)"

text \<open>
  The three branches of the key derivation, named. Which one an item takes is decided by the
  two tests of the loop body.
\<close>

datatype tier = EvidenceTier | DescriptionTier | JsonTier

definition evidenceText :: "jsval \<Rightarrow> jsval" where
  "evidenceText item = optProp (optProp (optProp item ''evidence'') ''descriptionSpan'') ''text''"

definition keyTier :: "jsval \<Rightarrow> tier" where
  "keyTier item =
     (if truthy (evidenceText item) then EvidenceTier
      else if typeof (optProp item ''description'') = ''string'' then DescriptionTier
      else JsonTier)"

fun tierPrefix :: "tier \<Rightarrow> string" where
  "tierPrefix EvidenceTier = ''evidence:''"
| "tierPrefix DescriptionTier = ''desc:''"
| "tierPrefix JsonTier = ''json:''"

text \<open>
  The key derivation as the specification words it, without a mark of the branch taken:
  the trimmed evidence text where the item has a non-empty one, else the lower-cased and
  trimmed description where that is a string, else the serialization of the item.
\<close>

definition spec_itemKey :: "(jsval \<Rightarrow> string) \<Rightarrow> jsval \<Rightarrow> string" where
  "spec_itemKey stringify item =
     (case evidenceText item of
        JStr t \<Rightarrow>
          if t \<noteq> [] then trim t
          else (case optProp item ''description'' of
                  JStr d \<Rightarrow> trim (toLowerCase d)
                | _ \<Rightarrow> stringify item)
      | _ \<Rightarrow>
          (case optProp item ''description'' of
             JStr d \<Rightarrow> trim (toLowerCase d)
           | _ \<Rightarrow> stringify item))"

definition spec_dedupe :: "(jsval \<Rightarrow> string) \<Rightarrow> jsval list \<Rightarrow> jsval list" where
  "spec_dedupe stringify items = firstOccurrences (spec_itemKey stringify) items"

text \<open>
  Items in the shape of those of the unit tests (tests/unit/grounding.test.ts): one with an
  evidence span, two that carry a description only, and items with neither.
\<close>

definition consultingEvidence :: jsval where
  "consultingEvidence =
     JObj [(''description'', JStr ''Consulting''), (''total'', JNum 1000),
           (''evidence'', JObj [(''descriptionSpan'',
              JObj [(''text'', JStr ''consulting''), (''startOffset'', JNum 100), (''endOffset'', JNum 110)])])]"

definition consultingPlain :: jsval where
  "consultingPlain = JObj [(''description'', JStr '' Consulting''), (''total'', JNum 2000)]"

definition consultingPlain2 :: jsval where
  "consultingPlain2 = JObj [(''description'', JStr ''CONSULTING ''), (''total'', JNum 3000)]"

definition unknownItem :: "rat \<Rightarrow> jsval" where
  "unknownItem price = JObj [(''name'', JStr ''Unknown''), (''price'', JNum price)]"

section \<open>Average confidence (lib/core/extraction-pipeline.ts, calculateAverageConfidence)\<close>

text \<open>
  The accumulator of the \<^verbatim>\<open>reduce\<close>: a number, or \<open>None\<close> once it has left the numbers the
  model represents. The operator \<^verbatim>\<open>+\<close> adds two numbers, reads \<open>true\<close> as 1, \<open>false\<close> and \<open>null\<close>
  as 0; with \<open>undefined\<close> the sum is \<open>NaN\<close>, and with a string, an array or an object it is a
  concatenation of texts.
\<close>

fun js_add :: "rat option \<Rightarrow> jsval \<Rightarrow> rat option" where
  "js_add (Some s) (JNum n) = Some (s + n)"
| "js_add (Some s) (JBool b) = Some (s + (if b then 1 else 0))"
| "js_add (Some s) JNull = Some s"
| "js_add s v = None"

text \<open>
  \<^verbatim>\<open>items.reduce((sum, item) => sum + (item.confidence || 0), 0)\<close>, from the left. Reading the
  property of an item that is \<open>undefined\<close> or \<open>null\<close> throws.
\<close>

fun sumConfidence :: "jsval list \<Rightarrow> rat option \<Rightarrow> js_error + rat option" where
  "sumConfidence [] acc = Inr acc"
| "sumConfidence (item # items) acc =
     (case getProp item ''confidence'' of
        Inl err \<Rightarrow> Inl err
      | Inr confidence \<Rightarrow>
          sumConfidence items (js_add acc (if truthy confidence then confidence else JNum 0)))"

text \<open>
  The result: \<open>undefined\<close>, a number, or a value computed from \<open>NaN\<close> or from a text, which the
  model does not follow further.
\<close>

datatype average = AvgUndefined | AvgNumber rat | AvgCoerced

definition calculateAverageConfidence :: "jsval list \<Rightarrow> js_error + average" where
  "calculateAverageConfidence items =
     (case items of
        [] \<Rightarrow> Inr AvgUndefined
      | first # rest \<Rightarrow>
          (case getProp first ''confidence'' of
             Inl err \<Rightarrow> Inl err
           | Inr confidence \<Rightarrow>
               if typeof confidence = ''number''
               then (case sumConfidence items (Some 0) of
                       Inl err \<Rightarrow> Inl err
                     | Inr None \<Rightarrow> Inr AvgCoerced
                     | Inr (Some totalConfidence) \<Rightarrow>
                         Inr (AvgNumber (totalConfidence / of_nat (length items))))
               else Inr AvgUndefined))"


definition factItem :: "string \<Rightarrow> rat \<Rightarrow> jsval" where
  "factItem factText confidence = JObj [(''fact'', JStr factText), (''confidence'', JNum confidence)]"

section \<open>The extraction pipeline (lib/core/extraction-pipeline.ts)\<close>

record PageChunk =
  content :: string
  pageNumber :: int

record ExtractionError =
  message :: string
  code :: string

text \<open>
  \<open>PageExtractionResult\<close> and \<open>ExtractionResult\<close>; the field \<open>pageNumber\<close> of the first and the
  field \<open>items\<close> of the second carry a prime, the names being taken. A successful page result
  has no \<open>error\<close> and no \<open>errorCode\<close>.
\<close>

record PageExtractionResult =
  items :: "jsval list"
  pageNumber' :: int
  success :: bool
  error :: "string option"
  errorCode :: "string option"

record Metrics =
  totalItems :: nat
  itemsBeforeDedup :: nat
  processingTimeMs :: int
  averageConfidence :: average

record ExtractionResult =
  items' :: "jsval list"
  pagesProcessed :: nat
  pagesFailed :: nat
  pageResults :: "PageExtractionResult list"
  metrics :: Metrics

text \<open>
  What the pipeline calls and does not define is a parameter of its model:
  \<^item> \<open>stringify\<close>, the serializer \<^verbatim>\<open>JSON.stringify\<close>;
  \<^item> \<open>execute i chunk\<close>, the outcome of the \<open>i\<close>-th call
    \<^verbatim>\<open>rateLimiter.execute(() => this.extractSingle(chunk.content, extractor), label)\<close> of a run,
    after the retries of the rate limiter (lib/core/rate-limiter.ts): the items, or the error
    it throws;
  \<^item> \<open>wrapError\<close> (lib/core/errors.ts), which turns what was thrown into an error with a
    message and a code;
  \<^item> the two readings of the clock, \<open>startTime\<close> and \<open>endTime\<close>.
  The progress callback and the logger are left out. Local variables whose names are field
  names are renamed: \<open>results\<close> for \<open>pageResults\<close>, \<open>extracted\<close> for the \<open>items\<close> of one call,
  \<open>deduplicated\<close> for \<open>allItems\<close> after deduplication.
\<close>

subsection \<open>Sequential mode: extractFromPages\<close>

text \<open>
  The loop over the chunks, with the index \<open>i\<close> and the pair of the page results and \<open>allItems\<close> as
  its state. The \<^verbatim>\<open>catch\<close> records the failure and the loop goes on.
\<close>

fun pages_loop ::
  "(nat \<Rightarrow> PageChunk \<Rightarrow> 'e + jsval list) \<Rightarrow> ('e \<Rightarrow> ExtractionError) \<Rightarrow> nat \<Rightarrow> PageChunk list \<Rightarrow>
   PageExtractionResult list \<times> jsval list \<Rightarrow> PageExtractionResult list \<times> jsval list"
where
  "pages_loop execute wrapError i [] state = state"
| "pages_loop execute wrapError i (chunk # chunks) (results, allItems) =
     (let pageNum = pageNumber chunk
      in case execute i chunk of
           Inr extracted \<Rightarrow>
             pages_loop execute wrapError (Suc i) chunks
               (results @ [\<lparr> items = extracted, pageNumber' = pageNum, success = True,
                              error = None, errorCode = None \<rparr>],
                allItems @ extracted)
         | Inl err \<Rightarrow>
             (let exError = wrapError err
              in pages_loop execute wrapError (Suc i) chunks
                   (results @ [\<lparr> items = [], pageNumber' = pageNum, success = False,
                                  error = Some (message exError),
                                  errorCode = Some (code exError) \<rparr>],
                    allItems)))"

definition extractFromPages ::
  "(jsval \<Rightarrow> string) \<Rightarrow> (nat \<Rightarrow> PageChunk \<Rightarrow> 'e + jsval list) \<Rightarrow> ('e \<Rightarrow> ExtractionError) \<Rightarrow>
   int \<Rightarrow> int \<Rightarrow> PageChunk list \<Rightarrow> js_error + ExtractionResult"
where
  "extractFromPages stringify execute wrapError startTime endTime chunks =
     (case pages_loop execute wrapError 0 chunks ([], []) of
        (results, allItems) \<Rightarrow>
          (case deduplicateItems stringify allItems of
             Inl err \<Rightarrow> Inl err
           | Inr deduplicated \<Rightarrow>
               (case calculateAverageConfidence deduplicated of
                  Inl err \<Rightarrow> Inl err
                | Inr average \<Rightarrow>
                    Inr \<lparr> items' = deduplicated,
                          pagesProcessed = length chunks,
                          pagesFailed = length (filter (\<lambda>r. \<not> success r) results),
                          pageResults = results,
                          metrics = \<lparr> totalItems = length deduplicated,
                                      itemsBeforeDedup =
                                        foldl (\<lambda>n r. n + length (items r)) 0 results,
                                      processingTimeMs = endTime - startTime,
                                      averageConfidence = average \<rparr> \<rparr>)))"

subsection \<open>Bounded-parallel mode: extractParallel\<close>

text \<open>
  The task of one chunk, \<^verbatim>\<open>async (chunk, i) => { try { ... } catch (error) { ... } }\<close>: it
  never rejects, its value is the page result.
\<close>

definition pageTask ::
  "(nat \<Rightarrow> PageChunk \<Rightarrow> 'e + jsval list) \<Rightarrow> ('e \<Rightarrow> ExtractionError) \<Rightarrow> nat \<Rightarrow> PageChunk \<Rightarrow>
   PageExtractionResult"
where
  "pageTask execute wrapError i chunk =
     (let pageNum = pageNumber chunk
      in case execute i chunk of
           Inr extracted \<Rightarrow>
             \<lparr> items = extracted, pageNumber' = pageNum, success = True,
               error = None, errorCode = None \<rparr>
         | Inl err \<Rightarrow>
             (let exError = wrapError err
              in \<lparr> items = [], pageNumber' = pageNum, success = False,
                   error = Some (message exError), errorCode = Some (code exError) \<rparr>))"

definition pageTasks ::
  "(nat \<Rightarrow> PageChunk \<Rightarrow> 'e + jsval list) \<Rightarrow> ('e \<Rightarrow> ExtractionError) \<Rightarrow> PageChunk list \<Rightarrow>
   PageExtractionResult list"
where
  "pageTasks execute wrapError chunks =
     map (\<lambda>(i, chunk). pageTask execute wrapError i chunk) (List.enumerate 0 chunks)"

text \<open>
  \<^verbatim>\<open>Promise.all\<close> over tasks that complete in the order \<open>order\<close> (indices of tasks; an index
  beyond the tasks names none): each completion stores the value at the index of its task,
  and the promise resolves with the values by index once every task has completed. \<open>None\<close>:
  a task never completes and neither does the call.
\<close>

definition Promise_all :: "'a list \<Rightarrow> nat list \<Rightarrow> 'a list option" where
  "Promise_all tasks order =
     (let values = foldl (\<lambda>vs i. if i < length vs then vs[i := Some (tasks ! i)] else vs)
                     (replicate (length tasks) None) order
      in if list_all (\<lambda>v. v \<noteq> None) values then Some (map the values) else None)"

definition extractParallel ::
  "(jsval \<Rightarrow> string) \<Rightarrow> (nat \<Rightarrow> PageChunk \<Rightarrow> 'e + jsval list) \<Rightarrow> ('e \<Rightarrow> ExtractionError) \<Rightarrow>
   int \<Rightarrow> int \<Rightarrow> nat list \<Rightarrow> PageChunk list \<Rightarrow> (js_error + ExtractionResult) option"
where
  "extractParallel stringify execute wrapError startTime endTime order chunks =
     (case Promise_all (pageTasks execute wrapError chunks) order of
        None \<Rightarrow> None
      | Some results \<Rightarrow>
          Some (let allItems = foldl (\<lambda>ys res. ys @ items res) [] results
                in case deduplicateItems stringify allItems of
                     Inl err \<Rightarrow> Inl err
                   | Inr deduplicated \<Rightarrow>
                       (case calculateAverageConfidence deduplicated of
                          Inl err \<Rightarrow> Inl err
                        | Inr average \<Rightarrow>
                            Inr \<lparr> items' = deduplicated,
                                  pagesProcessed = length chunks,
                                  pagesFailed = length (filter (\<lambda>r. \<not> success r) results),
                                  pageResults = results,
                                  metrics = \<lparr> totalItems = length deduplicated,
                                              itemsBeforeDedup = length allItems,
                                              processingTimeMs = endTime - startTime,
                                              averageConfidence = average \<rparr> \<rparr>)))"

text \<open>
  Both modes end with the same aggregation of the page results: it is stated once here, and
  shown below to be what each of them computes.
\<close>

definition aggregate ::
  "(jsval \<Rightarrow> string) \<Rightarrow> int \<Rightarrow> int \<Rightarrow> nat \<Rightarrow> PageExtractionResult list \<Rightarrow> js_error + ExtractionResult"
where
  "aggregate stringify startTime endTime n results =
     (case deduplicateItems stringify (concat (map items results)) of
        Inl err \<Rightarrow> Inl err
      | Inr deduplicated \<Rightarrow>
          (case calculateAverageConfidence deduplicated of
             Inl err \<Rightarrow> Inl err
           | Inr average \<Rightarrow>
               Inr \<lparr> items' = deduplicated,
                     pagesProcessed = n,
                     pagesFailed = length (filter (\<lambda>r. \<not> success r) results),
                     pageResults = results,
                     metrics = \<lparr> totalItems = length deduplicated,
                                 itemsBeforeDedup = length (concat (map items results)),
                                 processingTimeMs = endTime - startTime,
                                 averageConfidence = average \<rparr> \<rparr>))"

subsection \<open>Streaming mode: extractStreaming\<close>

text \<open>
  The pool holds the tasks not yet yielded, by index, in the order they were put in.
  \<^verbatim>\<open>Promise.race\<close> resolves with one of the tasks of the pool; which one depends on the timing
  of the calls and of the consumer, so the choice is a parameter: \<open>race pool\<close> picks the
  position in the pool of the task that wins. The list of the values the generator yields
  is the result.
\<close>

function stream_loop :: "(nat list \<Rightarrow> nat) \<Rightarrow> 'a list \<Rightarrow> nat list \<Rightarrow> 'a list" where
  "stream_loop race tasks pool =
     (if pool = [] then []
      else let p = pool ! (race pool mod length pool)
           in tasks ! p # stream_loop race tasks (remove1 p pool))"
  by pat_completeness auto
termination
proof (relation "measure (\<lambda>(race, tasks, pool). length pool)")
  show "wf (measure (\<lambda>(race, tasks, pool). length pool))" by simp
next
  fix race :: "nat list \<Rightarrow> nat" and tasks :: "'a list" and pool :: "nat list" and p
  assume "pool \<noteq> []" and p: "p = pool ! (race pool mod length pool)"
  then have "p \<in> set pool" by simp
  then have "length (remove1 p pool) < length pool"
    by (simp add: length_remove1) (cases pool, auto)
  then show "((race, tasks, remove1 p pool), (race, tasks, pool))
      \<in> measure (\<lambda>(race, tasks, pool). length pool)" by simp
qed

declare stream_loop.simps [simp del]

definition extractStreaming ::
  "(nat \<Rightarrow> PageChunk \<Rightarrow> 'e + jsval list) \<Rightarrow> ('e \<Rightarrow> ExtractionError) \<Rightarrow> (nat list \<Rightarrow> nat) \<Rightarrow>
   PageChunk list \<Rightarrow> PageExtractionResult list"
where
  "extractStreaming execute wrapError race chunks =
     (let tasks = pageTasks execute wrapError chunks
      in stream_loop race tasks [0..<length tasks])"

subsection \<open>Examples\<close>

text \<open>
  A service for the examples: it fails on page 2 with a validation error and returns one
  item for any other page. The error type and the codes of \<open>exampleWrapError\<close> stand in for
  lib/core/errors.ts.
\<close>

datatype service_error = ValidationError string | RetryableServiceError string

definition exampleWrapError :: "service_error \<Rightarrow> ExtractionError" where
  "exampleWrapError err =
     (case err of
        ValidationError m \<Rightarrow> \<lparr> message = m, code = ''VALIDATION_ERROR'' \<rparr>
      | RetryableServiceError m \<Rightarrow> \<lparr> message = m, code = ''RATE_LIMIT'' \<rparr>)"

definition threeChunks :: "PageChunk list" where
  "threeChunks =
     [\<lparr> content = ''page 1'', pageNumber = 1 \<rparr>,
      \<lparr> content = ''page 2'', pageNumber = 2 \<rparr>,
      \<lparr> content = ''page 3'', pageNumber = 3 \<rparr>]"

definition secondFails :: "nat \<Rightarrow> PageChunk \<Rightarrow> service_error + jsval list" where
  "secondFails i chunk =
     (if pageNumber chunk = 2 then Inl (ValidationError ''schema mismatch'')
      else Inr [factItem (content chunk) (4 / 5)])"

text \<open>
  A service that returns, for page 1 and for page 2, an item with the same description in
  another spelling and another total.
\<close>

definition twoChunks :: "PageChunk list" where
  "twoChunks =
     [\<lparr> content = ''page 1'', pageNumber = 1 \<rparr>,
      \<lparr> content = ''page 2'', pageNumber = 2 \<rparr>]"

definition sameDescription :: "nat \<Rightarrow> PageChunk \<Rightarrow> service_error + jsval list" where
  "sameDescription i chunk =
     (if pageNumber chunk = 1 then Inr [consultingPlain] else Inr [consultingPlain2])"

text \<open>
  The aggregation as the specification words it for a mode whose chunks complete in the
  order \<open>order\<close>: the items of the successful chunks, concatenated in that order.
\<close>

definition spec_itemsInCompletionOrder :: "nat list \<Rightarrow> PageExtractionResult list \<Rightarrow> jsval list" where
  "spec_itemsInCompletionOrder order results =
     concat (map items (filter success (map (\<lambda>i. results ! i) order)))"

section \<open>The scheduler (lib/core/rate-limiter.ts)\<close>

text \<open>
  Modelled from the spec: the class \<open>RateLimiter\<close> of lib/core/rate-limiter.ts is not among the
  sources; what follows is section 4.1 of the specification. The scheduler of one run owns
  two counters, the number of calls in flight and the time of the most recent start. A call
  may start only when fewer than \<open>maxConcurrent\<close> calls are in flight and at least
  \<open>minStartSpacing\<close> has passed since the most recent start; the check and the increment are
  one atomic step. A completion, successful or not, decrements the counter, and so does the
  release of the slot before the backoff of a retry, which then asks for admission again.
  Times are in milliseconds.
\<close>

record CallConfig =
  maxConcurrent :: nat
  minStartSpacing :: nat
  maxRetries :: nat

record Scheduler =
  inFlight :: nat
  lastStart :: "nat option"

datatype event = Admit nat | Complete | ReleaseForRetry

text \<open>Modelled from the spec: the admission rule of section 4.1, step 1.\<close>

definition admissible :: "CallConfig \<Rightarrow> Scheduler \<Rightarrow> nat \<Rightarrow> bool" where
  "admissible config s now \<longleftrightarrow>
     inFlight s < maxConcurrent config \<and>
     (case lastStart s of None \<Rightarrow> True | Some t \<Rightarrow> t + minStartSpacing config \<le> now)"

text \<open>
  Modelled from the spec: the accounting of section 4.1, steps 2 and 3. \<open>None\<close>: the event
  cannot happen in this state (the caller goes on waiting; nothing is in flight to complete).
\<close>

fun step :: "CallConfig \<Rightarrow> Scheduler \<Rightarrow> event \<Rightarrow> Scheduler option" where
  "step config s (Admit now) =
     (if admissible config s now
      then Some \<lparr> inFlight = inFlight s + 1, lastStart = Some now \<rparr>
      else None)"
| "step config s Complete =
     (if 0 < inFlight s then Some (s\<lparr> inFlight := inFlight s - 1 \<rparr>) else None)"
| "step config s ReleaseForRetry =
     (if 0 < inFlight s then Some (s\<lparr> inFlight := inFlight s - 1 \<rparr>) else None)"

text \<open>
  Modelled from the spec: a run of one scheduler instance is a sequence of events, each
  possible in the state it meets; the result lists the states after each event.
\<close>

fun run :: "CallConfig \<Rightarrow> Scheduler \<Rightarrow> event list \<Rightarrow> Scheduler list option" where
  "run config s [] = Some []"
| "run config s (e # es) =
     (case step config s e of
        None \<Rightarrow> None
      | Some s' \<Rightarrow> (case run config s' es of None \<Rightarrow> None | Some states \<Rightarrow> Some (s' # states)))"

definition newScheduler :: Scheduler where
  "newScheduler = \<lparr> inFlight = 0, lastStart = None \<rparr>"

text \<open>The largest number of calls in flight over the states of a run.\<close>

definition peakInFlight :: "Scheduler list \<Rightarrow> nat" where
  "peakInFlight states = foldr (\<lambda>s m. max (inFlight s) m) states 0"

text \<open>
  The scenario of the specification and of the latency test: five chunks of 50 ms each,
  all submitted at time 0, \<open>maxConcurrent = 2\<close> and no spacing. Two callers are admitted at
  once, each of the others when a slot is released.
\<close>

definition scenarioConfig :: CallConfig where
  "scenarioConfig = \<lparr> maxConcurrent = 2, minStartSpacing = 0, maxRetries = 1 \<rparr>"

definition scenarioEvents :: "event list" where
  "scenarioEvents =
     [Admit 0, Admit 0,
      Complete, Admit 50, Complete, Admit 50,
      Complete, Admit 100, Complete,
      Complete]"

section \<open>Properties of source grounding\<close>

lemma StringIndexOf_Some:
  "StringIndexOf s e i = Some k \<Longrightarrow>
     i \<le> k \<and> occurs_at s e k \<and> (\<forall>j. i \<le> j \<and> j < k \<longrightarrow> \<not> occurs_at s e j)"
proof (induction s e i rule: StringIndexOf.induct)
  case (1 s e i)
  show ?case
  proof (cases "length s < i + length e")
    case True
    with "1.prems" show ?thesis by (simp add: StringIndexOf.simps [of s e i])
  next
    case fits: False
    show ?thesis
    proof (cases "take (length e) (drop i s) = e")
      case True
      with fits "1.prems" have "k = i" by (simp add: StringIndexOf.simps [of s e i])
      with fits True show ?thesis by (auto simp: occurs_at_def)
    next
      case False
      with fits "1.prems" have rec: "StringIndexOf s e (Suc i) = Some k"
        by (simp add: StringIndexOf.simps [of s e i])
      from "1.IH" [OF fits False rec]
      have ih: "Suc i \<le> k" "occurs_at s e k"
        "\<forall>j. Suc i \<le> j \<and> j < k \<longrightarrow> \<not> occurs_at s e j" by auto
      have "\<not> occurs_at s e i" using False by (simp add: occurs_at_def)
      with ih show ?thesis
        by (metis Suc_leD Suc_leI le_neq_implies_less)
    qed
  qed
qed

lemma StringIndexOf_None:
  "StringIndexOf s e i = None \<Longrightarrow> i \<le> j \<Longrightarrow> \<not> occurs_at s e j"
proof (induction s e i rule: StringIndexOf.induct)
  case (1 s e i)
  show ?case
  proof (cases "length s < i + length e")
    case True
    with "1.prems" show ?thesis by (simp add: occurs_at_def)
  next
    case fits: False
    show ?thesis
    proof (cases "take (length e) (drop i s) = e")
      case True
      with fits "1.prems" show ?thesis by (simp add: StringIndexOf.simps [of s e i])
    next
      case False
      with fits "1.prems" have rec: "StringIndexOf s e (Suc i) = None"
        by (simp add: StringIndexOf.simps [of s e i])
      show ?thesis
      proof (cases "j = i")
        case True
        with False show ?thesis by (simp add: occurs_at_def)
      next
        case False
        with "1.prems" have "Suc i \<le> j" by simp
        from "1.IH" [OF fits \<open>take (length e) (drop i s) \<noteq> e\<close> rec this] show ?thesis .
      qed
    qed
  qed
qed

lemma indexOf_found:
  assumes "indexOf s e p \<noteq> - 1" and ne: "e \<noteq> []"
  shows "0 \<le> indexOf s e p \<and> occurs_at s e (nat (indexOf s e p)) \<and> p \<le> indexOf s e p \<and>
         (\<forall>k. occurs_at s e k \<and> p \<le> int k \<longrightarrow> indexOf s e p \<le> int k)"
proof -
  let ?start = "nat (min (max p 0) (int (length s)))"
  from assms obtain i where i: "StringIndexOf s e ?start = Some i" and r: "indexOf s e p = int i"
    by (auto simp: indexOf_def Let_def split: option.splits)
  from StringIndexOf_Some [OF i]
  have a: "?start \<le> i" and b: "occurs_at s e i"
    and c: "\<forall>j. ?start \<le> j \<and> j < i \<longrightarrow> \<not> occurs_at s e j" by auto
  have "i < length s" using b ne by (cases e) (auto simp: occurs_at_def)
  with a have "p \<le> int i" by linarith
  moreover have "indexOf s e p \<le> int k" if "occurs_at s e k" "p \<le> int k" for k
  proof (rule ccontr)
    assume "\<not> indexOf s e p \<le> int k"
    then have "k < i" using r by simp
    moreover have "?start \<le> k" using that(2) that(1) by (auto simp: occurs_at_def)
    ultimately show False using c that(1) by blast
  qed
  ultimately show ?thesis using r b by simp
qed

lemma indexOf_not_found:
  assumes "indexOf s e p = - 1" "occurs_at s e k"
  shows "int k < p"
proof (rule ccontr)
  assume n: "\<not> int k < p"
  let ?start = "nat (min (max p 0) (int (length s)))"
  from assms(1) have "StringIndexOf s e ?start = None"
    by (auto simp: indexOf_def Let_def split: option.splits)
  moreover have "?start \<le> k" using n by linarith
  ultimately show False using assms(2) StringIndexOf_None by blast
qed

lemma substring_occurs:
  "occurs_at s e k \<Longrightarrow> substring s (int k) (int k + int (length e)) = e"
  by (auto simp: occurs_at_def substring_def Let_def min_def max_def)

text \<open>
  Claim C1. Whenever \<open>computeEvidenceOffsets\<close> returns a span, its text is the evidence text,
  its start offset is the leftmost occurrence of the evidence text in the source at or after
  the search start, its end offset is the start offset plus the length of the evidence text,
  and the substring of the source between the two offsets is the evidence text. It returns
  not-found exactly when the evidence text is empty, the source is empty, or the evidence text
  does not occur in the source at or after the search start.
\<close>

theorem computeEvidenceOffsets_correct:
  "(computeEvidenceOffsets s e p = None \<longleftrightarrow>
      e = [] \<or> s = [] \<or> \<not> (\<exists>k. occurs_at s e k \<and> p \<le> int k)) \<and>
   (\<forall>sp. computeEvidenceOffsets s e p = Some sp \<longrightarrow>
      text sp = e \<and>
      0 \<le> startOffset sp \<and> p \<le> startOffset sp \<and>
      occurs_at s e (nat (startOffset sp)) \<and>
      (\<forall>k. occurs_at s e k \<and> p \<le> int k \<longrightarrow> startOffset sp \<le> int k) \<and>
      endOffset sp = startOffset sp + int (length e) \<and>
      substring s (startOffset sp) (endOffset sp) = e)"
proof (intro conjI allI impI)
  show "computeEvidenceOffsets s e p = None \<longleftrightarrow>
      e = [] \<or> s = [] \<or> \<not> (\<exists>k. occurs_at s e k \<and> p \<le> int k)"
  proof (cases "e = [] \<or> s = []")
    case True
    then show ?thesis by (auto simp: computeEvidenceOffsets_def)
  next
    case False
    show ?thesis
    proof (cases "indexOf s e p = - 1")
      case True
      have "\<not> (\<exists>k. occurs_at s e k \<and> p \<le> int k)"
        using indexOf_not_found [OF True] by fastforce
      with False True show ?thesis
        by (simp add: computeEvidenceOffsets_def Let_def)
    next
      case nf: False
      from False have "e \<noteq> []" by simp
      from indexOf_found [OF nf this]
      have "occurs_at s e (nat (indexOf s e p)) \<and> p \<le> int (nat (indexOf s e p))" by simp
      then have "\<exists>k. occurs_at s e k \<and> p \<le> int k" by blast
      with False nf show ?thesis by (auto simp: computeEvidenceOffsets_def Let_def)
    qed
  qed
next
  fix sp
  assume h: "computeEvidenceOffsets s e p = Some sp"
  then have ne: "indexOf s e p \<noteq> - 1" and e: "e \<noteq> []"
    and sp: "sp = \<lparr> text = e, startOffset = indexOf s e p,
                    endOffset = indexOf s e p + int (length e) \<rparr>"
    by (auto simp: computeEvidenceOffsets_def Let_def split: if_splits)
  note f = indexOf_found [OF ne e]
  show "text sp = e" by (simp add: sp)
  show "0 \<le> startOffset sp" using f by (simp add: sp)
  show "p \<le> startOffset sp" using f by (simp add: sp)
  show "occurs_at s e (nat (startOffset sp))" using f by (simp add: sp)
  show "endOffset sp = startOffset sp + int (length e)" by (simp add: sp)
  show "substring s (startOffset sp) (endOffset sp) = e"
    using substring_occurs [of s e "nat (indexOf s e p)"] f by (simp add: sp)
  fix k assume "occurs_at s e k \<and> p \<le> int k"
  then show "startOffset sp \<le> int k" using f by (simp add: sp)
qed

theorem computeEvidenceOffsets_correct_witness:
  "computeEvidenceOffsets ''Total: $1,234.56'' ''$1,234.56'' 0
     = Some \<lparr> text = ''$1,234.56'', startOffset = 7, endOffset = 16 \<rparr> \<and>
   occurs_at ''Total: $1,234.56'' ''$1,234.56'' 7 \<and>
   substring ''Total: $1,234.56'' 7 16 = ''$1,234.56''"
proof -
  have h: "computeEvidenceOffsets ''Total: $1,234.56'' ''$1,234.56'' 0
     = Some \<lparr> text = ''$1,234.56'', startOffset = 7, endOffset = 16 \<rparr>"
    by code_simp
  from computeEvidenceOffsets_correct [of "''Total: $1,234.56''" "''$1,234.56''" 0] h
  show ?thesis by simp
qed

section \<open>Properties of deduplication\<close>

lemma keptPositions_Nil: "keptPositions key seen [] = []"
  by (simp add: keptPositions_def)

lemma ball_upt_less: "(\<forall>j \<in> set [0..<n]. P j) \<longleftrightarrow> (\<forall>j < n. P j)"
  by (simp add: Ball_def)

lemma keptPositions_Cons:
  "keptPositions key seen (x # xs) =
     (if key x \<in> seen then map Suc (keptPositions key seen xs)
      else 0 # map Suc (keptPositions key (insert (key x) seen) xs))"
proof -
  have upt: "[0..<length (x # xs)] = 0 # map Suc [0..<length xs]"
    by (simp add: upt_conv_Cons map_Suc_upt del: upt_Suc)
  have shift: "(\<forall>j \<in> set [0..<Suc i]. key ((x # xs) ! j) \<noteq> k) \<longleftrightarrow>
               key x \<noteq> k \<and> (\<forall>j \<in> set [0..<i]. key (xs ! j) \<noteq> k)" for i k
    by (simp only: ball_upt_less All_less_Suc2 nth_Cons_0 nth_Cons_Suc)
  show ?thesis
    unfolding keptPositions_def upt
    by (auto simp: filter_map comp_def shift simp del: upt_Suc set_upt intro!: filter_cong)
qed

text \<open>The loop computes the first occurrences, as long as no key derivation throws.\<close>

lemma dedupe_loop_kept:
  assumes "\<forall>item \<in> set its. \<exists>k. itemKey S item = Inr k"
  shows "dedupe_loop S its seen acc =
           Inr (acc @ map (\<lambda>i. its ! i) (keptPositions (itemKey S) (Inr ` seen) its))"
  using assms
proof (induction its arbitrary: seen acc)
  case Nil
  show ?case by (simp add: keptPositions_Nil)
next
  case (Cons item its)
  then obtain k where k: "itemKey S item = Inr k" by auto
  from Cons.prems have rest: "\<forall>item \<in> set its. \<exists>k. itemKey S item = Inr k" by simp
  show ?case
  proof (cases "k \<in> seen")
    case True
    then have "itemKey S item \<in> Inr ` seen" using k by simp
    then show ?thesis
      using Cons.IH [OF rest, of seen acc] k True
      by (simp add: keptPositions_Cons comp_def)
  next
    case False
    then have "itemKey S item \<notin> Inr ` seen" using k by auto
    moreover have "insert (itemKey S item) (Inr ` seen) = Inr ` insert k seen" using k by simp
    ultimately show ?thesis
      using Cons.IH [OF rest, of "insert k seen" "acc @ [item]"] k False
      by (simp add: keptPositions_Cons comp_def)
  qed
qed

lemma dedupe_loop_throws:
  assumes "item \<in> set its" "itemKey S item = Inl err"
  shows "\<exists>err'. dedupe_loop S its seen acc = Inl err'"
  using assms
proof (induction its arbitrary: seen acc)
  case Nil
  then show ?case by simp
next
  case (Cons x xs)
  show ?case
  proof (cases "itemKey S x")
    case (Inl e)
    then show ?thesis by simp
  next
    case (Inr k)
    with Cons.prems have "item \<in> set xs" by auto
    from Cons.IH [OF this Cons.prems(2)] Inr show ?thesis by simp
  qed
qed


lemma deduplicateItems_kept:
  assumes "\<forall>item \<in> set its. \<exists>k. itemKey S item = Inr k"
  shows "deduplicateItems S its = Inr (firstOccurrences (itemKey S) its)"
  using dedupe_loop_kept [OF assms, of "{}" "[]"]
  by (simp add: deduplicateItems_def firstOccurrences_def)

lemma deduplicateItems_throws:
  assumes "item \<in> set its" "itemKey S item = Inl err"
  shows "\<exists>err'. deduplicateItems S its = Inl err'"
  using dedupe_loop_throws [OF assms] by (simp add: deduplicateItems_def)

lemma deduplicateItems_Inr_keys:
  assumes "deduplicateItems S its = Inr out"
  shows "\<forall>item \<in> set its. \<exists>k. itemKey S item = Inr k"
proof
  fix item assume "item \<in> set its"
  show "\<exists>k. itemKey S item = Inr k"
  proof (cases "itemKey S item")
    case (Inl err)
    from deduplicateItems_throws [OF \<open>item \<in> set its\<close> Inl] assms show ?thesis by auto
  next
    case (Inr k)
    then show ?thesis by blast
  qed
qed

subsection \<open>First occurrences\<close>

lemma kept_Cons:
  "map (\<lambda>i. (x # xs) ! i) (keptPositions key seen (x # xs)) =
     (if key x \<in> seen then map (\<lambda>i. xs ! i) (keptPositions key seen xs)
      else x # map (\<lambda>i. xs ! i) (keptPositions key (insert (key x) seen) xs))"
  by (simp add: keptPositions_Cons comp_def)

lemma kept_facts:
  "set (map (\<lambda>i. xs ! i) (keptPositions key seen xs)) \<subseteq> set xs \<and>
   distinct (map key (map (\<lambda>i. xs ! i) (keptPositions key seen xs))) \<and>
   key ` set (map (\<lambda>i. xs ! i) (keptPositions key seen xs)) \<inter> seen = {}"
proof (induction xs arbitrary: seen)
  case Nil
  show ?case by (simp add: keptPositions_Nil)
next
  case (Cons x xs)
  show ?case
  proof (cases "key x \<in> seen")
    case True
    with Cons.IH [of seen] show ?thesis
      by (simp only: kept_Cons if_True) auto
  next
    case False
    with Cons.IH [of "insert (key x) seen"] show ?thesis
      by (simp only: kept_Cons if_False) auto
  qed
qed

lemma kept_distinct_id:
  "distinct (map key xs) \<Longrightarrow> key ` set xs \<inter> seen = {} \<Longrightarrow>
   map (\<lambda>i. xs ! i) (keptPositions key seen xs) = xs"
proof (induction xs arbitrary: seen)
  case Nil
  show ?case by (simp add: keptPositions_Nil)
next
  case (Cons x xs)
  from Cons.prems have nx: "key x \<notin> seen" by auto
  from Cons.prems have "distinct (map key xs)" "key ` set xs \<inter> insert (key x) seen = {}"
    by auto
  from Cons.IH [OF this] nx show ?case
    by (simp only: kept_Cons if_False)
qed

lemma firstOccurrences_subset: "set (firstOccurrences key xs) \<subseteq> set xs"
  using kept_facts [of xs key "{}"] by (simp add: firstOccurrences_def)

lemma firstOccurrences_idem:
  "firstOccurrences key (firstOccurrences key xs) = firstOccurrences key xs"
proof -
  have "distinct (map key (firstOccurrences key xs))"
    using kept_facts [of xs key "{}"] by (simp add: firstOccurrences_def)
  from kept_distinct_id [OF this, of "{}"] show ?thesis
    by (simp add: firstOccurrences_def)
qed

lemma kept_subseq: "subseq (map (\<lambda>i. xs ! i) (keptPositions key seen xs)) xs"
proof (induction xs arbitrary: seen)
  case Nil
  show ?case by (simp add: keptPositions_Nil)
next
  case (Cons x xs)
  show ?case
  proof (cases "key x \<in> seen")
    case True
    with Cons.IH [of seen] show ?thesis
      by (simp only: kept_Cons if_True) auto
  next
    case False
    with Cons.IH [of "insert (key x) seen"] show ?thesis
      by (simp only: kept_Cons if_False) auto
  qed
qed

lemma keptPositions_iff:
  "i \<in> set (keptPositions key {} xs) \<longleftrightarrow>
     i < length xs \<and> \<not> (\<exists>j < i. key (xs ! j) = key (xs ! i))"
  by (auto simp: keptPositions_def)

subsection \<open>Key derivation\<close>

lemma getProp_Inl: "getProp v name = Inl err \<longleftrightarrow> v = JUndefined \<or> v = JNull"
  by (cases v; cases err) auto

lemma getProp_Inr: "getProp v name = Inr x \<Longrightarrow> optProp v name = x"
  by (simp add: optProp_def)

lemma getProp_total: "v \<noteq> JUndefined \<Longrightarrow> v \<noteq> JNull \<Longrightarrow> getProp v name = Inr (optProp v name)"
  by (cases v) (auto simp: optProp_def)

lemma itemKey_evidence:
  assumes "evidenceText item = JStr t" "t \<noteq> []"
  shows "itemKey S item = Inr (''evidence:'' @ trim t)"
proof -
  have "item \<noteq> JUndefined" "item \<noteq> JNull"
    using assms(1) by (auto simp: evidenceText_def optProp_def)
  from getProp_total [OF this] assms show ?thesis
    by (simp add: itemKey_def evidenceText_def)
qed

lemma itemKey_description:
  assumes "item \<noteq> JUndefined" "item \<noteq> JNull" "\<not> truthy (evidenceText item)"
    and "optProp item ''description'' = JStr d"
  shows "itemKey S item = Inr (''desc:'' @ trim (toLowerCase d))"
  using assms getProp_total [OF assms(1,2)]
  by (simp add: itemKey_def evidenceText_def)

lemma itemKey_json:
  assumes "item \<noteq> JUndefined" "item \<noteq> JNull" "\<not> truthy (evidenceText item)"
    and "typeof (optProp item ''description'') \<noteq> ''string''"
  shows "itemKey S item = Inr (''json:'' @ S item)"
  using assms getProp_total [OF assms(1,2)]
  by (simp add: itemKey_def evidenceText_def)

lemma typeof_string: "typeof v = ''string'' \<longleftrightarrow> (\<exists>s. v = JStr s)"
  by (cases v) auto

lemma itemKey_prefix:
  assumes "itemKey S item = Inr k"
  shows "prefix (tierPrefix (keyTier item)) k"
proof -
  from assms have nn: "item \<noteq> JUndefined" "item \<noteq> JNull"
    by (auto simp: itemKey_def)
  show ?thesis
  proof (cases "truthy (evidenceText item)")
    case True
    with assms getProp_total [OF nn] show ?thesis
      by (auto simp: itemKey_def evidenceText_def keyTier_def split: sum.splits)
  next
    case False
    show ?thesis
    proof (cases "typeof (optProp item ''description'') = ''string''")
      case True
      then obtain d where "optProp item ''description'' = JStr d"
        by (auto simp: typeof_string)
      from itemKey_description [OF nn False this, of S] assms
      have "k = ''desc:'' @ trim (toLowerCase d)" by simp
      with False True show ?thesis by (simp add: keyTier_def)
    next
      case nd: False
      from itemKey_json [OF nn False nd, of S] assms
      have "k = ''json:'' @ S item" by simp
      with False nd show ?thesis by (simp add: keyTier_def)
    qed
  qed
qed

lemma tierPrefix_disjoint:
  "prefix (tierPrefix a) k \<Longrightarrow> prefix (tierPrefix b) k \<Longrightarrow> a = b"
  by (cases a; cases b) (auto simp: prefix_def)

lemma itemKey_same_tier:
  "itemKey S a = Inr k \<Longrightarrow> itemKey S b = Inr k \<Longrightarrow> keyTier a = keyTier b"
  using itemKey_prefix tierPrefix_disjoint by blast

text \<open>
  Claim C2. Deduplication is idempotent: running it on its own result gives that result
  again; where the first run throws, so does the composition.
\<close>

theorem deduplicateItems_idempotent:
  "bindE (deduplicateItems S x) (deduplicateItems S) = deduplicateItems S x"
proof (cases "\<forall>item \<in> set x. \<exists>k. itemKey S item = Inr k")
  case True
  have "\<forall>item \<in> set (firstOccurrences (itemKey S) x). \<exists>k. itemKey S item = Inr k"
    using True firstOccurrences_subset [of "itemKey S" x] by blast
  from deduplicateItems_kept [OF this] deduplicateItems_kept [OF True]
  show ?thesis by (simp add: bindE_def firstOccurrences_idem)
next
  case False
  then obtain item where i: "item \<in> set x" and "\<not> (\<exists>k. itemKey S item = Inr k)" by blast
  then obtain err where "itemKey S item = Inl err" by (cases "itemKey S item") auto
  from deduplicateItems_throws [OF i this] show ?thesis by (auto simp: bindE_def)
qed

text \<open>
  Claim C3, as the code has it. One pass keeps, in their order, exactly the items at the
  positions that no earlier position shares its key with. The key is \<open>evidence:\<close> followed by
  the trimmed evidence text where the item has a non-empty one; else \<open>desc:\<close> followed by the
  lower-cased, trimmed description where that is a string; else \<open>json:\<close> followed by the
  serialization of the item. Where the key derivation throws on an item, the call throws.
\<close>

theorem deduplicateItems_first_occurrences:
  "((\<forall>item \<in> set its. \<exists>k. itemKey S item = Inr k) \<longrightarrow>
      deduplicateItems S its = Inr (firstOccurrences (itemKey S) its)) \<and>
   ((\<exists>item \<in> set its. \<exists>err. itemKey S item = Inl err) \<longrightarrow>
      (\<exists>err. deduplicateItems S its = Inl err)) \<and>
   subseq (firstOccurrences (itemKey S) its) its \<and>
   (\<forall>i < length its.
      i \<in> set (keptPositions (itemKey S) {} its) \<longleftrightarrow>
      \<not> (\<exists>j < i. itemKey S (its ! j) = itemKey S (its ! i))) \<and>
   (\<forall>item t. evidenceText item = JStr t \<and> t \<noteq> [] \<longrightarrow>
      itemKey S item = Inr (''evidence:'' @ trim t)) \<and>
   (\<forall>item d. item \<noteq> JUndefined \<and> item \<noteq> JNull \<and> \<not> truthy (evidenceText item) \<and>
        optProp item ''description'' = JStr d \<longrightarrow>
      itemKey S item = Inr (''desc:'' @ trim (toLowerCase d))) \<and>
   (\<forall>item. item \<noteq> JUndefined \<and> item \<noteq> JNull \<and> \<not> truthy (evidenceText item) \<and>
        typeof (optProp item ''description'') \<noteq> ''string'' \<longrightarrow>
      itemKey S item = Inr (''json:'' @ S item))"
proof (intro conjI)
  show "(\<forall>item \<in> set its. \<exists>k. itemKey S item = Inr k) \<longrightarrow>
      deduplicateItems S its = Inr (firstOccurrences (itemKey S) its)"
    using deduplicateItems_kept by blast
  show "(\<exists>item \<in> set its. \<exists>err. itemKey S item = Inl err) \<longrightarrow>
      (\<exists>err. deduplicateItems S its = Inl err)"
    using deduplicateItems_throws by blast
  show "subseq (firstOccurrences (itemKey S) its) its"
    unfolding firstOccurrences_def by (rule kept_subseq)
  show "\<forall>i < length its.
      i \<in> set (keptPositions (itemKey S) {} its) \<longleftrightarrow>
      \<not> (\<exists>j < i. itemKey S (its ! j) = itemKey S (its ! i))"
    by (simp add: keptPositions_iff)
  show "\<forall>item t. evidenceText item = JStr t \<and> t \<noteq> [] \<longrightarrow>
      itemKey S item = Inr (''evidence:'' @ trim t)"
    using itemKey_evidence by blast
  show "\<forall>item d. item \<noteq> JUndefined \<and> item \<noteq> JNull \<and> \<not> truthy (evidenceText item) \<and>
        optProp item ''description'' = JStr d \<longrightarrow>
      itemKey S item = Inr (''desc:'' @ trim (toLowerCase d))"
    using itemKey_description by blast
  show "\<forall>item. item \<noteq> JUndefined \<and> item \<noteq> JNull \<and> \<not> truthy (evidenceText item) \<and>
        typeof (optProp item ''description'') \<noteq> ''string'' \<longrightarrow>
      itemKey S item = Inr (''json:'' @ S item)"
    using itemKey_json by blast
qed



theorem deduplicateItems_first_occurrences_witness:
  "deduplicateItems JSON_stringify
     [consultingEvidence, consultingPlain, unknownItem 50, consultingEvidence,
      consultingPlain2, unknownItem 50, unknownItem 75]
   = Inr [consultingEvidence, consultingPlain, unknownItem 50, unknownItem 75] \<and>
   itemKey JSON_stringify consultingEvidence = Inr ''evidence:consulting'' \<and>
   itemKey JSON_stringify consultingPlain2 = Inr ''desc:consulting'' \<and>
   itemKey JSON_stringify (unknownItem 50) = Inr (''json:'' @ JSON_stringify (unknownItem 50))"
proof -
  let ?its = "[consultingEvidence, consultingPlain, unknownItem 50, consultingEvidence,
      consultingPlain2, unknownItem 50, unknownItem 75]"
  note main = deduplicateItems_first_occurrences [of ?its JSON_stringify]
  have "\<forall>item \<in> set ?its. \<not> isl (itemKey JSON_stringify item)"
    unfolding consultingEvidence_def consultingPlain_def consultingPlain2_def unknownItem_def by code_simp
  then have keys: "\<forall>item \<in> set ?its. \<exists>k. itemKey JSON_stringify item = Inr k"
    by (metis isl_def sum.exhaust)
  have fo: "firstOccurrences (itemKey JSON_stringify) ?its
      = [consultingEvidence, consultingPlain, unknownItem 50, unknownItem 75]"
    unfolding consultingEvidence_def consultingPlain_def consultingPlain2_def unknownItem_def by code_simp
  have e: "evidenceText consultingEvidence = JStr ''consulting'' \<and> ''consulting'' \<noteq> []"
    unfolding consultingEvidence_def consultingPlain_def consultingPlain2_def unknownItem_def by code_simp
  have d: "consultingPlain2 \<noteq> JUndefined \<and> consultingPlain2 \<noteq> JNull \<and>
     \<not> truthy (evidenceText consultingPlain2) \<and>
     optProp consultingPlain2 ''description'' = JStr ''CONSULTING ''"
    unfolding consultingEvidence_def consultingPlain_def consultingPlain2_def unknownItem_def by code_simp
  have j: "unknownItem 50 \<noteq> JUndefined \<and> unknownItem 50 \<noteq> JNull \<and>
     \<not> truthy (evidenceText (unknownItem 50)) \<and>
     typeof (optProp (unknownItem 50) ''description'') \<noteq> ''string''"
    unfolding consultingEvidence_def consultingPlain_def consultingPlain2_def unknownItem_def by code_simp
  note c1 = main [THEN conjunct1, THEN mp, OF keys]
  note c5 = main [THEN conjunct2, THEN conjunct2, THEN conjunct2, THEN conjunct2,
    THEN conjunct1, THEN spec, THEN spec, THEN mp, OF e]
  note c6 = main [THEN conjunct2, THEN conjunct2, THEN conjunct2, THEN conjunct2,
    THEN conjunct2, THEN conjunct1, THEN spec, THEN spec, THEN mp, OF d]
  note c7 = main [THEN conjunct2, THEN conjunct2, THEN conjunct2, THEN conjunct2,
    THEN conjunct2, THEN conjunct2, THEN spec, THEN mp, OF j]
  have t1: "trim ''consulting'' = ''consulting''" by code_simp
  have t2: "trim (toLowerCase ''CONSULTING '') = ''consulting''" by code_simp
  have "deduplicateItems JSON_stringify ?its
     = Inr [consultingEvidence, consultingPlain, unknownItem 50, unknownItem 75]"
    using c1 by (simp only: fo)
  moreover have "itemKey JSON_stringify consultingEvidence = Inr ''evidence:consulting''"
    using c5 by (simp only: t1 append_Cons append_Nil)
  moreover have "itemKey JSON_stringify consultingPlain2 = Inr ''desc:consulting''"
    using c6 by (simp only: t2 append_Cons append_Nil)
  ultimately show ?thesis using c7 by (intro conjI)
qed

text \<open>
  With the keys as the specification words them, without the mark of the branch, an item
  with the evidence text \<open>consulting\<close> and a later item with the description \<open>Consulting\<close> and
  no evidence have one key and the later one would be dropped. The code keeps both.
\<close>

theorem deduplicateItems_spec_key_counterexample:
  "spec_itemKey JSON_stringify consultingEvidence = spec_itemKey JSON_stringify consultingPlain \<and>
   spec_dedupe JSON_stringify [consultingEvidence, consultingPlain] = [consultingEvidence] \<and>
   deduplicateItems JSON_stringify [consultingEvidence, consultingPlain]
     = Inr [consultingEvidence, consultingPlain]"
  unfolding consultingEvidence_def consultingPlain_def by code_simp

text \<open>
  Claim C10. Every key starts with the prefix of the branch that derived it, no text starts
  with two of the prefixes, so two items with one key took the same branch, and an item is
  dropped only for an earlier item of its own branch. In particular an item with an evidence
  text and an item without one that has a description are never merged, whatever the texts.
\<close>

theorem itemKey_tier_prefix:
  "(\<forall>a k. itemKey S a = Inr k \<longrightarrow> prefix (tierPrefix (keyTier a)) k) \<and>
   (\<forall>t1 t2 k. prefix (tierPrefix t1) k \<and> prefix (tierPrefix t2) k \<longrightarrow> t1 = t2) \<and>
   (\<forall>a b k. itemKey S a = Inr k \<and> itemKey S b = Inr k \<longrightarrow> keyTier a = keyTier b) \<and>
   (\<forall>out i. deduplicateItems S its = Inr out \<and> i < length its \<and>
        i \<notin> set (keptPositions (itemKey S) {} its) \<longrightarrow>
      out = map (\<lambda>i. its ! i) (keptPositions (itemKey S) {} its) \<and>
      (\<exists>j < i. itemKey S (its ! j) = itemKey S (its ! i) \<and>
               keyTier (its ! j) = keyTier (its ! i))) \<and>
   (\<forall>a b t d. evidenceText a = JStr t \<and> t \<noteq> [] \<and>
        b \<noteq> JUndefined \<and> b \<noteq> JNull \<and> \<not> truthy (evidenceText b) \<and>
        optProp b ''description'' = JStr d \<longrightarrow>
      itemKey S a \<noteq> itemKey S b \<and>
      deduplicateItems S [a, b] = Inr [a, b] \<and> deduplicateItems S [b, a] = Inr [b, a])"
proof (intro conjI allI impI)
  fix a k assume "itemKey S a = Inr k"
  then show "prefix (tierPrefix (keyTier a)) k" by (rule itemKey_prefix)
next
  fix t1 t2 :: tier and k assume "prefix (tierPrefix t1) k \<and> prefix (tierPrefix t2) k"
  then show "t1 = t2" using tierPrefix_disjoint by blast
next
  fix a b k assume "itemKey S a = Inr k \<and> itemKey S b = Inr k"
  then show "keyTier a = keyTier b" using itemKey_same_tier by blast
next
  fix out i
  assume h: "deduplicateItems S its = Inr out \<and> i < length its \<and>
        i \<notin> set (keptPositions (itemKey S) {} its)"
  from h deduplicateItems_Inr_keys have keys: "\<forall>item \<in> set its. \<exists>k. itemKey S item = Inr k"
    by blast
  from deduplicateItems_kept [OF keys] h
  show "out = map (\<lambda>i. its ! i) (keptPositions (itemKey S) {} its)"
    by (simp add: firstOccurrences_def)
  from h obtain j where j: "j < i" "itemKey S (its ! j) = itemKey S (its ! i)"
    by (auto simp: keptPositions_iff)
  from keys h obtain k where "itemKey S (its ! i) = Inr k" by (meson nth_mem)
  with j itemKey_same_tier have "keyTier (its ! j) = keyTier (its ! i)" by metis
  with j show "\<exists>j < i. itemKey S (its ! j) = itemKey S (its ! i) \<and>
               keyTier (its ! j) = keyTier (its ! i)" by blast
next
  fix a b t d
  assume h: "evidenceText a = JStr t \<and> t \<noteq> [] \<and>
        b \<noteq> JUndefined \<and> b \<noteq> JNull \<and> \<not> truthy (evidenceText b) \<and>
        optProp b ''description'' = JStr d"
  then have ka: "itemKey S a = Inr (''evidence:'' @ trim t)"
    using itemKey_evidence by blast
  from h have kb: "itemKey S b = Inr (''desc:'' @ trim (toLowerCase d))"
    using itemKey_description by blast
  from ka kb show "itemKey S a \<noteq> itemKey S b" by simp
  from ka kb show "deduplicateItems S [a, b] = Inr [a, b]"
    by (simp add: deduplicateItems_def)
  from ka kb show "deduplicateItems S [b, a] = Inr [b, a]"
    by (simp add: deduplicateItems_def)
qed

theorem itemKey_tier_prefix_witness:
  "itemKey JSON_stringify consultingEvidence = Inr ''evidence:consulting'' \<and>
   itemKey JSON_stringify consultingPlain = Inr ''desc:consulting'' \<and>
   keyTier consultingEvidence = EvidenceTier \<and>
   keyTier consultingPlain = DescriptionTier \<and>
   prefix ''evidence:'' ''evidence:consulting'' \<and>
   deduplicateItems JSON_stringify [consultingEvidence, consultingPlain]
     = Inr [consultingEvidence, consultingPlain] \<and>
   deduplicateItems JSON_stringify [consultingPlain, consultingEvidence, consultingPlain2]
     = Inr [consultingPlain, consultingEvidence] \<and>
   (\<exists>j < 2. keyTier ([consultingPlain, consultingEvidence, consultingPlain2] ! j)
             = keyTier consultingPlain2)"
proof -
  let ?its = "[consultingPlain, consultingEvidence, consultingPlain2]"
  note main = itemKey_tier_prefix [of JSON_stringify ?its]
  have ka: "itemKey JSON_stringify consultingEvidence = Inr ''evidence:consulting''"
    unfolding consultingEvidence_def consultingPlain_def consultingPlain2_def by code_simp
  have kb: "itemKey JSON_stringify consultingPlain = Inr ''desc:consulting''"
    unfolding consultingEvidence_def consultingPlain_def consultingPlain2_def by code_simp
  have ta: "keyTier consultingEvidence = EvidenceTier"
    unfolding consultingEvidence_def consultingPlain_def consultingPlain2_def by code_simp
  have tb: "keyTier consultingPlain = DescriptionTier"
    unfolding consultingEvidence_def consultingPlain_def consultingPlain2_def by code_simp
  have pa: "prefix ''evidence:'' ''evidence:consulting''"
    using main [THEN conjunct1, THEN spec, THEN spec, THEN mp, OF ka] by (simp only: ta tierPrefix.simps)
  have h5: "evidenceText consultingEvidence = JStr ''consulting'' \<and> ''consulting'' \<noteq> [] \<and>
        consultingPlain \<noteq> JUndefined \<and> consultingPlain \<noteq> JNull \<and>
        \<not> truthy (evidenceText consultingPlain) \<and>
        optProp consultingPlain ''description'' = JStr '' Consulting''"
    unfolding consultingEvidence_def consultingPlain_def consultingPlain2_def by code_simp
  note c5 = main [THEN conjunct2, THEN conjunct2, THEN conjunct2, THEN conjunct2,
    THEN spec, THEN spec, THEN spec, THEN spec, THEN mp, OF h5, THEN conjunct2,
    THEN conjunct1]
  have d3: "deduplicateItems JSON_stringify ?its = Inr [consultingPlain, consultingEvidence]"
    unfolding consultingEvidence_def consultingPlain_def consultingPlain2_def by code_simp
  have h4: "deduplicateItems JSON_stringify ?its = Inr [consultingPlain, consultingEvidence] \<and>
     2 < length ?its \<and> 2 \<notin> set (keptPositions (itemKey JSON_stringify) {} ?its)"
    unfolding consultingEvidence_def consultingPlain_def consultingPlain2_def by code_simp
  note c4 = main [THEN conjunct2, THEN conjunct2, THEN conjunct2, THEN conjunct1,
    THEN spec, THEN spec, THEN mp, OF h4, THEN conjunct2]
  have "\<exists>j < 2. keyTier (?its ! j) = keyTier consultingPlain2"
    using c4 by auto
  with ka kb ta tb pa c5 d3 show ?thesis by (intro conjI) (simp_all only:)
qed

section \<open>Properties of the average confidence\<close>


lemma sumConfidence_returns:
  assumes "\<forall>item \<in> set its. item \<noteq> JUndefined \<and> item \<noteq> JNull"
  shows "\<exists>t. sumConfidence its s = Inr t"
  using assms
proof (induction its arbitrary: s)
  case Nil
  show ?case by simp
next
  case (Cons item its)
  then have nn: "item \<noteq> JUndefined" "item \<noteq> JNull" by auto
  from Cons getProp_total [OF nn, of "''confidence''"] show ?case by simp
qed

lemma calculateAverageConfidence_defined:
  assumes nn: "\<forall>item \<in> set its. item \<noteq> JUndefined \<and> item \<noteq> JNull"
  shows "\<exists>r. calculateAverageConfidence its = Inr r \<and>
           (r \<noteq> AvgUndefined \<longleftrightarrow>
              its \<noteq> [] \<and> typeof (optProp (hd its) ''confidence'') = ''number'')"
proof (cases its)
  case Nil
  then show ?thesis by (simp add: calculateAverageConfidence_def)
next
  case (Cons first rest)
  with nn have f: "first \<noteq> JUndefined" "first \<noteq> JNull" by auto
  note g = getProp_total [OF f, of "''confidence''"]
  from sumConfidence_returns [OF nn] obtain t where t: "sumConfidence its (Some 0) = Inr t"
    by blast
  show ?thesis
  proof (cases "typeof (optProp first ''confidence'') = ''number''")
    case True
    with Cons g t show ?thesis
      by (cases t) (auto simp: calculateAverageConfidence_def)
  next
    case False
    with Cons g show ?thesis by (simp add: calculateAverageConfidence_def)
  qed
qed




section \<open>Properties of the pipeline\<close>

lemma pages_loop_tasks:
  "pages_loop execute wrapError i chunks (results, allItems) =
     (results @ map (\<lambda>(j, chunk). pageTask execute wrapError j chunk) (List.enumerate i chunks),
      allItems @ concat (map (\<lambda>(j, chunk). items (pageTask execute wrapError j chunk))
                           (List.enumerate i chunks)))"
proof (induction chunks arbitrary: i results allItems)
  case Nil
  show ?case by simp
next
  case (Cons chunk chunks)
  show ?case
  proof (cases "execute i chunk")
    case (Inl err)
    with Cons.IH show ?thesis by (simp add: pageTask_def Let_def)
  next
    case (Inr extracted)
    with Cons.IH show ?thesis by (simp add: pageTask_def Let_def)
  qed
qed

lemma pages_loop_pageTasks:
  "pages_loop execute wrapError 0 chunks ([], []) =
     (pageTasks execute wrapError chunks,
      concat (map items (pageTasks execute wrapError chunks)))"
  by (simp add: pages_loop_tasks pageTasks_def comp_def case_prod_unfold)

lemma length_pageTasks: "length (pageTasks execute wrapError chunks) = length chunks"
  by (simp add: pageTasks_def)

lemma nth_pageTasks:
  "i < length chunks \<Longrightarrow>
   pageTasks execute wrapError chunks ! i = pageTask execute wrapError i (chunks ! i)"
  by (simp add: pageTasks_def nth_enumerate_eq)

lemma pageTask_failed_items: "\<not> success (pageTask execute wrapError i chunk) \<Longrightarrow>
  items (pageTask execute wrapError i chunk) = []"
  by (cases "execute i chunk") (simp_all add: pageTask_def Let_def)

lemma pageTasks_failed_items:
  "p \<in> set (pageTasks execute wrapError chunks) \<Longrightarrow> \<not> success p \<Longrightarrow> items p = []"
  by (auto simp: pageTasks_def pageTask_failed_items)

lemma concat_successful:
  "(\<And>p. p \<in> set rs \<Longrightarrow> \<not> success p \<Longrightarrow> items p = []) \<Longrightarrow>
   concat (map items (filter success rs)) = concat (map items rs)"
  by (induction rs) auto

lemma foldl_append_items:
  "foldl (\<lambda>ys res. ys @ items res) acc rs = acc @ concat (map items rs)"
  by (induction rs arbitrary: acc) simp_all

lemma foldl_count_items:
  "foldl (\<lambda>n r. n + length (items r)) k rs = k + length (concat (map items rs))"
  by (induction rs arbitrary: k) simp_all

text \<open>After a deduplication that returned, the average confidence does not throw.\<close>

lemma itemKey_Inr_defined: "itemKey S item = Inr k \<Longrightarrow> item \<noteq> JUndefined \<and> item \<noteq> JNull"
  by (auto simp: itemKey_def)

lemma deduplicated_average:
  assumes "deduplicateItems S xs = Inr d"
  shows "\<exists>a. calculateAverageConfidence d = Inr a"
proof -
  from deduplicateItems_Inr_keys [OF assms]
  have keys: "\<forall>item \<in> set xs. \<exists>k. itemKey S item = Inr k" .
  with deduplicateItems_kept [OF keys] assms have "set d \<subseteq> set xs"
    using firstOccurrences_subset [of "itemKey S" xs] by simp
  with keys have "\<forall>item \<in> set d. item \<noteq> JUndefined \<and> item \<noteq> JNull"
    using itemKey_Inr_defined by blast
  with calculateAverageConfidence_defined show ?thesis by blast
qed

subsection \<open>Promise.all\<close>

lemma fill_length:
  "length (foldl (\<lambda>vs i. if i < length vs then vs[i := Some (tasks ! i)] else vs) vs order)
     = length vs"
  by (induction order arbitrary: vs) simp_all

lemma fill_nth:
  "j < length vs \<Longrightarrow>
   foldl (\<lambda>vs i. if i < length vs then vs[i := Some (tasks ! i)] else vs) vs order ! j
     = (if j \<in> set order then Some (tasks ! j) else vs ! j)"
proof (induction order arbitrary: vs)
  case Nil
  show ?case by simp
next
  case (Cons i order)
  show ?case
  proof (cases "i < length vs")
    case True
    with Cons.prems have "j < length (vs[i := Some (tasks ! i)])" by simp
    from Cons.IH [OF this] True Cons.prems show ?thesis
      by (auto simp: nth_list_update)
  next
    case False
    with Cons.IH [OF Cons.prems] Cons.prems show ?thesis by auto
  qed
qed

lemma Promise_all_complete:
  assumes "{0..<length tasks} \<subseteq> set order"
  shows "Promise_all tasks order = Some tasks"
proof -
  define vs where "vs = foldl (\<lambda>vs i. if i < length vs then vs[i := Some (tasks ! i)] else vs)
               (replicate (length tasks) None) order"
  have len: "length vs = length tasks" by (simp add: vs_def fill_length)
  have nth: "vs ! j = Some (tasks ! j)" if "j < length tasks" for j
  proof -
    from that assms have "j \<in> set order" by auto
    with that fill_nth [of j "replicate (length tasks) None" tasks order]
    show ?thesis by (simp add: vs_def)
  qed
  have "vs = map Some tasks"
    by (rule nth_equalityI) (simp_all add: len nth)
  then have "list_all (\<lambda>v. v \<noteq> None) vs" "map the vs = tasks"
    by (simp_all add: list_all_iff comp_def)
  then show ?thesis
    unfolding Promise_all_def Let_def vs_def [symmetric] by simp
qed

lemma Promise_all_incomplete:
  assumes "\<not> {0..<length tasks} \<subseteq> set order"
  shows "Promise_all tasks order = None"
proof -
  define vs where "vs = foldl (\<lambda>vs i. if i < length vs then vs[i := Some (tasks ! i)] else vs)
               (replicate (length tasks) None) order"
  from assms obtain j where j: "j < length tasks" "j \<notin> set order"
    by (force simp: subset_iff)
  have len: "length vs = length tasks" by (simp add: vs_def fill_length)
  from j fill_nth [of j "replicate (length tasks) None" tasks order]
  have "vs ! j = None" by (simp add: vs_def)
  moreover from j len have "vs ! j \<in> set vs" by simp
  ultimately have "\<not> list_all (\<lambda>v. v \<noteq> None) vs"
    by (auto simp: list_all_iff)
  then show ?thesis
    unfolding Promise_all_def Let_def vs_def [symmetric] by simp
qed

subsection \<open>The two modes in terms of the page tasks\<close>

lemma extractFromPages_aggregate:
  "extractFromPages S execute wrapError t0 t1 chunks =
     aggregate S t0 t1 (length chunks) (pageTasks execute wrapError chunks)"
  by (simp add: extractFromPages_def pages_loop_pageTasks aggregate_def foldl_count_items
      cong: sum.case_cong)

lemma extractParallel_aggregate:
  "{0..<length chunks} \<subseteq> set order \<Longrightarrow>
   extractParallel S execute wrapError t0 t1 order chunks =
     Some (aggregate S t0 t1 (length chunks) (pageTasks execute wrapError chunks))"
  by (simp add: extractParallel_def Promise_all_complete length_pageTasks aggregate_def
      foldl_append_items Let_def cong: sum.case_cong)

lemma aggregate_Inr:
  assumes "aggregate S t0 t1 n results = Inr r"
  shows "deduplicateItems S (concat (map items results)) = Inr (items' r)"
    and "pagesProcessed r = n"
    and "pagesFailed r = length (filter (\<lambda>p. \<not> success p) results)"
    and "pageResults r = results"
    and "totalItems (metrics r) = length (items' r)"
    and "itemsBeforeDedup (metrics r) = length (concat (map items results))"
    and "processingTimeMs (metrics r) = t1 - t0"
    and "calculateAverageConfidence (items' r) = Inr (averageConfidence (metrics r))"
  using assms by (auto simp: aggregate_def split: sum.splits)


lemma pageTask_fields:
  "pageNumber' (pageTask execute wrapError i chunk) = pageNumber chunk"
  "execute i chunk = Inr extracted \<Longrightarrow>
     success (pageTask execute wrapError i chunk) \<and>
     items (pageTask execute wrapError i chunk) = extracted \<and>
     error (pageTask execute wrapError i chunk) = None \<and>
     errorCode (pageTask execute wrapError i chunk) = None"
  "execute i chunk = Inl err \<Longrightarrow>
     \<not> success (pageTask execute wrapError i chunk) \<and>
     items (pageTask execute wrapError i chunk) = [] \<and>
     error (pageTask execute wrapError i chunk) = Some (message (wrapError err)) \<and>
     errorCode (pageTask execute wrapError i chunk) = Some (code (wrapError err))"
  by (cases "execute i chunk"; simp add: pageTask_def Let_def)+






subsection \<open>Metrics\<close>

lemma sum_list_length_concat: "sum_list (map (\<lambda>p. length (f p)) rs) = length (concat (map f rs))"
  by (induction rs) simp_all

lemma aggregate_metrics:
  assumes "aggregate S t0 t1 (length chunks) (pageTasks execute wrapError chunks) = Inr r"
  shows "pageResults r = pageTasks execute wrapError chunks \<and>
     itemsBeforeDedup (metrics r) = sum_list (map (\<lambda>p. length (items p)) (pageResults r)) \<and>
     itemsBeforeDedup (metrics r)
       = sum_list (map (\<lambda>p. length (items p)) (filter success (pageResults r))) \<and>
     totalItems (metrics r) = length (items' r) \<and>
     deduplicateItems S (concat (map items (filter success (pageResults r)))) = Inr (items' r) \<and>
     pagesProcessed r = length chunks"
proof -
  let ?results = "pageTasks execute wrapError chunks"
  note a = aggregate_Inr [OF assms]
  have all: "concat (map items (filter success ?results)) = concat (map items ?results)"
    using concat_successful [of ?results] pageTasks_failed_items [of _ execute wrapError chunks]
    by metis
  show ?thesis
    using a(1,2,5,6) by (simp add: a(4) sum_list_length_concat all)
qed

text \<open>
  Claim C5, as the code has it. In both modes the page results are those of the chunks in
  the order of the input, \<open>itemsBeforeDedup\<close> is the sum of their item counts (the failed ones
  hold no items), \<open>items\<close> is the deduplication of the items of the successful chunks
  concatenated in the order of the input, \<open>totalItems\<close> is its length and \<open>pagesProcessed\<close> the
  number of chunks. The parallel mode returns once every task has completed, with the same
  result for every order of completion.
\<close>

theorem extraction_metrics:
  "(\<forall>r. extractFromPages S execute wrapError t0 t1 chunks = Inr r \<longrightarrow>
      pageResults r = pageTasks execute wrapError chunks \<and>
      itemsBeforeDedup (metrics r) = sum_list (map (\<lambda>p. length (items p)) (pageResults r)) \<and>
      itemsBeforeDedup (metrics r)
        = sum_list (map (\<lambda>p. length (items p)) (filter success (pageResults r))) \<and>
      totalItems (metrics r) = length (items' r) \<and>
      deduplicateItems S (concat (map items (filter success (pageResults r)))) = Inr (items' r) \<and>
      pagesProcessed r = length chunks) \<and>
   ({0..<length chunks} \<subseteq> set order \<longrightarrow>
      (\<exists>x. extractParallel S execute wrapError t0 t1 order chunks = Some x) \<and>
      (\<forall>r. extractParallel S execute wrapError t0 t1 order chunks = Some (Inr r) \<longrightarrow>
         pageResults r = pageTasks execute wrapError chunks \<and>
         itemsBeforeDedup (metrics r) = sum_list (map (\<lambda>p. length (items p)) (pageResults r)) \<and>
         itemsBeforeDedup (metrics r)
           = sum_list (map (\<lambda>p. length (items p)) (filter success (pageResults r))) \<and>
         totalItems (metrics r) = length (items' r) \<and>
         deduplicateItems S (concat (map items (filter success (pageResults r)))) = Inr (items' r) \<and>
         pagesProcessed r = length chunks))"
proof (rule conjI)
  show "\<forall>r. extractFromPages S execute wrapError t0 t1 chunks = Inr r \<longrightarrow>
      pageResults r = pageTasks execute wrapError chunks \<and>
      itemsBeforeDedup (metrics r) = sum_list (map (\<lambda>p. length (items p)) (pageResults r)) \<and>
      itemsBeforeDedup (metrics r)
        = sum_list (map (\<lambda>p. length (items p)) (filter success (pageResults r))) \<and>
      totalItems (metrics r) = length (items' r) \<and>
      deduplicateItems S (concat (map items (filter success (pageResults r)))) = Inr (items' r) \<and>
      pagesProcessed r = length chunks"
  proof (intro allI impI)
    fix r assume "extractFromPages S execute wrapError t0 t1 chunks = Inr r"
    then have "aggregate S t0 t1 (length chunks) (pageTasks execute wrapError chunks) = Inr r"
      by (simp only: extractFromPages_aggregate)
    then show "pageResults r = pageTasks execute wrapError chunks \<and>
      itemsBeforeDedup (metrics r) = sum_list (map (\<lambda>p. length (items p)) (pageResults r)) \<and>
      itemsBeforeDedup (metrics r)
        = sum_list (map (\<lambda>p. length (items p)) (filter success (pageResults r))) \<and>
      totalItems (metrics r) = length (items' r) \<and>
      deduplicateItems S (concat (map items (filter success (pageResults r)))) = Inr (items' r) \<and>
      pagesProcessed r = length chunks"
      by (rule aggregate_metrics)
  qed
next
  show "{0..<length chunks} \<subseteq> set order \<longrightarrow>
      (\<exists>x. extractParallel S execute wrapError t0 t1 order chunks = Some x) \<and>
      (\<forall>r. extractParallel S execute wrapError t0 t1 order chunks = Some (Inr r) \<longrightarrow>
         pageResults r = pageTasks execute wrapError chunks \<and>
         itemsBeforeDedup (metrics r) = sum_list (map (\<lambda>p. length (items p)) (pageResults r)) \<and>
         itemsBeforeDedup (metrics r)
           = sum_list (map (\<lambda>p. length (items p)) (filter success (pageResults r))) \<and>
         totalItems (metrics r) = length (items' r) \<and>
         deduplicateItems S (concat (map items (filter success (pageResults r)))) = Inr (items' r) \<and>
         pagesProcessed r = length chunks)"
  proof (rule impI, rule conjI)
    assume o: "{0..<length chunks} \<subseteq> set order"
    from extractParallel_aggregate [OF o]
    show "\<exists>x. extractParallel S execute wrapError t0 t1 order chunks = Some x" by blast
    show "\<forall>r. extractParallel S execute wrapError t0 t1 order chunks = Some (Inr r) \<longrightarrow>
         pageResults r = pageTasks execute wrapError chunks \<and>
         itemsBeforeDedup (metrics r) = sum_list (map (\<lambda>p. length (items p)) (pageResults r)) \<and>
         itemsBeforeDedup (metrics r)
           = sum_list (map (\<lambda>p. length (items p)) (filter success (pageResults r))) \<and>
         totalItems (metrics r) = length (items' r) \<and>
         deduplicateItems S (concat (map items (filter success (pageResults r)))) = Inr (items' r) \<and>
         pagesProcessed r = length chunks"
    proof (intro allI impI)
      fix r assume "extractParallel S execute wrapError t0 t1 order chunks = Some (Inr r)"
      then have "aggregate S t0 t1 (length chunks) (pageTasks execute wrapError chunks) = Inr r"
        by (simp only: extractParallel_aggregate [OF o] option.inject)
      then show "pageResults r = pageTasks execute wrapError chunks \<and>
         itemsBeforeDedup (metrics r) = sum_list (map (\<lambda>p. length (items p)) (pageResults r)) \<and>
         itemsBeforeDedup (metrics r)
           = sum_list (map (\<lambda>p. length (items p)) (filter success (pageResults r))) \<and>
         totalItems (metrics r) = length (items' r) \<and>
         deduplicateItems S (concat (map items (filter success (pageResults r)))) = Inr (items' r) \<and>
         pagesProcessed r = length chunks"
        by (rule aggregate_metrics)
    qed
  qed
qed

theorem extraction_metrics_witness:
  "map_option (map_sum id (\<lambda>r. (items' r, totalItems (metrics r), itemsBeforeDedup (metrics r),
       pagesProcessed r)))
     (extractParallel JSON_stringify sameDescription exampleWrapError 0 1500 [1, 0] twoChunks)
     = Some (Inr ([consultingPlain], 1, 2, 2)) \<and>
   deduplicateItems JSON_stringify
     (concat (map items (filter success (pageTasks sameDescription exampleWrapError twoChunks))))
     = Inr [consultingPlain]"
proof -
  have o: "{0..<length twoChunks} \<subseteq> set [1, 0]"
    unfolding twoChunks_def by auto
  note main = extraction_metrics [of JSON_stringify sameDescription exampleWrapError 0 1500
    twoChunks "[1, 0]", THEN conjunct2, THEN mp, OF o]
  from main obtain x where x: "extractParallel JSON_stringify sameDescription exampleWrapError
    0 1500 [1, 0] twoChunks = Some x" by blast
  have i: "map_option (map_sum id items')
     (extractParallel JSON_stringify sameDescription exampleWrapError 0 1500 [1, 0] twoChunks)
     = Some (Inr [consultingPlain])"
    unfolding twoChunks_def sameDescription_def exampleWrapError_def consultingPlain_def
      consultingPlain2_def by code_simp
  with x obtain r where r: "x = Inr r" "items' r = [consultingPlain]"
    by (cases x) auto
  from main x r have m: "pageResults r = pageTasks sameDescription exampleWrapError twoChunks"
    "itemsBeforeDedup (metrics r) = sum_list (map (\<lambda>p. length (items p)) (pageResults r))"
    "totalItems (metrics r) = length (items' r)"
    "deduplicateItems JSON_stringify (concat (map items (filter success (pageResults r))))
       = Inr (items' r)"
    "pagesProcessed r = length twoChunks"
    by blast+
  have s: "sum_list (map (\<lambda>p. length (items p))
             (pageTasks sameDescription exampleWrapError twoChunks)) = 2"
    unfolding twoChunks_def sameDescription_def exampleWrapError_def consultingPlain_def
      consultingPlain2_def by code_simp
  have l: "length twoChunks = 2" unfolding twoChunks_def by simp
  from m r s l x show ?thesis by simp
qed

text \<open>
  With two chunks where the task of the second completes first, the parallel mode still
  keeps the item of the first chunk; a concatenation in the order of completion would keep
  the item of the second.
\<close>

theorem extractParallel_completion_order_counterexample:
  "map_option (map_sum id items')
     (extractParallel JSON_stringify sameDescription exampleWrapError 0 1500 [1, 0] twoChunks)
     = Some (Inr [consultingPlain]) \<and>
   deduplicateItems JSON_stringify
     (spec_itemsInCompletionOrder [1, 0] (pageTasks sameDescription exampleWrapError twoChunks))
     = Inr [consultingPlain2] \<and>
   consultingPlain \<noteq> consultingPlain2"
  unfolding twoChunks_def sameDescription_def exampleWrapError_def consultingPlain_def
      consultingPlain2_def by code_simp

subsection \<open>Sequential and parallel mode\<close>

lemma pageTask_items:
  "items (pageTask execute wrapError i chunk) =
     (case execute i chunk of Inl err \<Rightarrow> [] | Inr extracted \<Rightarrow> extracted)"
  by (cases "execute i chunk") (simp_all add: pageTask_def Let_def)

lemma pageTasks_items_agree:
  assumes "\<forall>i chunk extracted. (execS i chunk = Inr extracted) = (execP i chunk = Inr extracted)"
  shows "map items (pageTasks execS wrapS chunks) = map items (pageTasks execP wrapP chunks)"
proof (rule nth_equalityI)
  show "length (map items (pageTasks execS wrapS chunks))
      = length (map items (pageTasks execP wrapP chunks))"
    by (simp add: length_pageTasks)
next
  fix i assume "i < length (map items (pageTasks execS wrapS chunks))"
  then have i: "i < length chunks" by (simp add: length_pageTasks)
  have "(case execS i (chunks ! i) of Inl err \<Rightarrow> [] | Inr extracted \<Rightarrow> extracted)
      = (case execP i (chunks ! i) of Inl err \<Rightarrow> [] | Inr extracted \<Rightarrow> extracted)"
  proof (cases "execS i (chunks ! i)")
    case (Inr extracted)
    with assms have "execP i (chunks ! i) = Inr extracted" by blast
    with Inr show ?thesis by simp
  next
    case (Inl err)
    show ?thesis
    proof (cases "execP i (chunks ! i)")
      case (Inr extracted)
      with assms have "execS i (chunks ! i) = Inr extracted" by blast
      with Inl show ?thesis by simp
    next
      case Inl': (Inl err')
      with Inl show ?thesis by simp
    qed
  qed
  with i show "map items (pageTasks execS wrapS chunks) ! i
      = map items (pageTasks execP wrapP chunks) ! i"
    by (simp add: length_pageTasks nth_pageTasks pageTask_items)
qed

lemma aggregate_items:
  "map_sum id items' (aggregate S t0 t1 n results) = deduplicateItems S (concat (map items results))"
proof (cases "deduplicateItems S (concat (map items results))")
  case (Inl err)
  then show ?thesis by (simp add: aggregate_def)
next
  case (Inr d)
  from deduplicated_average [OF Inr] obtain a where "calculateAverageConfidence d = Inr a" ..
  with Inr show ?thesis by (simp add: aggregate_def)
qed

text \<open>
  Claim C9. Where the calls of the two modes agree on the items they return for a chunk,
  the sequential mode and the parallel mode, on the same chunks and for every order in
  which the tasks of the parallel mode complete, end with the same deduplicated list of
  items, or both throw.
\<close>

theorem sequential_parallel_same_items:
  "(\<forall>i chunk extracted. (execS i chunk = Inr extracted) = (execP i chunk = Inr extracted)) \<and>
   {0..<length chunks} \<subseteq> set order \<longrightarrow>
   map_option (map_sum id items') (extractParallel S execP wrapP t2 t3 order chunks)
     = Some (map_sum id items' (extractFromPages S execS wrapS t0 t1 chunks))"
proof
  assume h: "(\<forall>i chunk extracted. (execS i chunk = Inr extracted) = (execP i chunk = Inr extracted)) \<and>
   {0..<length chunks} \<subseteq> set order"
  then have o: "{0..<length chunks} \<subseteq> set order" by blast
  from h have "map items (pageTasks execS wrapS chunks) = map items (pageTasks execP wrapP chunks)"
    using pageTasks_items_agree by blast
  then have "concat (map items (pageTasks execS wrapS chunks))
      = concat (map items (pageTasks execP wrapP chunks))" by simp
  then show "map_option (map_sum id items') (extractParallel S execP wrapP t2 t3 order chunks)
     = Some (map_sum id items' (extractFromPages S execS wrapS t0 t1 chunks))"
    by (simp add: extractParallel_aggregate [OF o] extractFromPages_aggregate aggregate_items)
qed

theorem sequential_parallel_same_items_witness:
  "map_option (map_sum id items')
     (extractParallel JSON_stringify secondFails exampleWrapError 0 900 [2, 0, 1] threeChunks)
     = Some (Inr [factItem ''page 1'' (4 / 5), factItem ''page 3'' (4 / 5)]) \<and>
   map_sum id items'
     (extractFromPages JSON_stringify secondFails exampleWrapError 0 1500 threeChunks)
     = Inr [factItem ''page 1'' (4 / 5), factItem ''page 3'' (4 / 5)]"
proof -
  have h: "(\<forall>i chunk extracted.
       (secondFails i chunk = Inr extracted) = (secondFails i chunk = Inr extracted)) \<and>
     {0..<length threeChunks} \<subseteq> set [2, 0, 1]"
    unfolding threeChunks_def by auto
  note main = sequential_parallel_same_items [of secondFails secondFails threeChunks "[2, 0, 1]"
    JSON_stringify exampleWrapError 0 900 exampleWrapError 0 1500, THEN mp, OF h]
  have s: "map_sum id items'
     (extractFromPages JSON_stringify secondFails exampleWrapError 0 1500 threeChunks)
     = Inr [factItem ''page 1'' (4 / 5), factItem ''page 3'' (4 / 5)]"
    unfolding threeChunks_def secondFails_def exampleWrapError_def factItem_def by code_simp
  from main s show ?thesis by (simp only:) 
qed

subsection \<open>Streaming mode\<close>

lemma stream_loop_mset:
  "mset (stream_loop race tasks pool) = image_mset (\<lambda>p. tasks ! p) (mset pool)"
proof (induction race tasks pool rule: stream_loop.induct)
  case (1 race tasks pool)
  show ?case
  proof (cases "pool = []")
    case True
    then show ?thesis by (simp add: stream_loop.simps [of race tasks "[]"])
  next
    case False
    define p where "p = pool ! (race pool mod length pool)"
    from False have mem: "p \<in> set pool" by (simp add: p_def)
    from "1.IH" [OF False p_def]
    have ih: "mset (stream_loop race tasks (remove1 p pool))
        = image_mset (\<lambda>p. tasks ! p) (mset (remove1 p pool))" .
    from mem have "mset pool = add_mset p (mset (remove1 p pool))" by simp
    then have "image_mset (\<lambda>p. tasks ! p) (mset pool)
        = add_mset (tasks ! p) (image_mset (\<lambda>p. tasks ! p) (mset (remove1 p pool)))"
      by (metis image_mset_add_mset)
    with ih False show ?thesis
      by (simp add: stream_loop.simps [of race tasks pool] Let_def p_def [symmetric])
  qed
qed

lemma extractStreaming_mset:
  "mset (extractStreaming execute wrapError race chunks) = mset (pageTasks execute wrapError chunks)"
proof -
  let ?tasks = "pageTasks execute wrapError chunks"
  have "image_mset (\<lambda>p. ?tasks ! p) (mset [0..<length ?tasks]) = mset (map (\<lambda>p. ?tasks ! p) [0..<length ?tasks])"
    by simp
  also have "map (\<lambda>p. ?tasks ! p) [0..<length ?tasks] = ?tasks" by (rule map_nth)
  finally show ?thesis by (simp add: extractStreaming_def Let_def stream_loop_mset)
qed

lemma pageTasks_pageNumbers:
  "map pageNumber' (pageTasks execute wrapError chunks) = map pageNumber chunks"
  by (rule nth_equalityI) (simp_all add: length_pageTasks nth_pageTasks pageTask_fields(1))

text \<open>
  Claim C7. Whatever task wins each race, the streaming mode yields the page results of
  the chunks, each as often as it occurs among the tasks: as many results as chunks, and
  the page numbers of the chunks, each as often as among the chunks, so exactly once where
  the chunks carry distinct numbers. The loop ends for every choice of the winners.
\<close>

theorem extractStreaming_each_once:
  "mset (extractStreaming execute wrapError race chunks) = mset (pageTasks execute wrapError chunks) \<and>
   length (extractStreaming execute wrapError race chunks) = length chunks \<and>
   mset (map pageNumber' (extractStreaming execute wrapError race chunks))
     = mset (map pageNumber chunks) \<and>
   (distinct (map pageNumber chunks) \<longrightarrow>
      distinct (map pageNumber' (extractStreaming execute wrapError race chunks)) \<and>
      set (map pageNumber' (extractStreaming execute wrapError race chunks))
        = set (map pageNumber chunks))"
proof -
  let ?out = "extractStreaming execute wrapError race chunks"
  note m = extractStreaming_mset [of execute wrapError race chunks]
  from m have len: "length ?out = length chunks"
    by (metis length_pageTasks size_mset)
  from m have "mset (map pageNumber' ?out)
      = mset (map pageNumber' (pageTasks execute wrapError chunks))"
    by (metis mset_map)
  then have nums: "mset (map pageNumber' ?out) = mset (map pageNumber chunks)"
    by (simp only: pageTasks_pageNumbers)
  have "distinct (map pageNumber' ?out) \<and> set (map pageNumber' ?out) = set (map pageNumber chunks)"
    if "distinct (map pageNumber chunks)"
    using that nums by (metis mset_eq_imp_distinct_iff mset_eq_setD)
  with m len nums show ?thesis by blast
qed

theorem extractStreaming_each_once_witness:
  "map pageNumber' (extractStreaming secondFails exampleWrapError (\<lambda>pool. 1) threeChunks) = [2, 3, 1] \<and>
   length (extractStreaming secondFails exampleWrapError (\<lambda>pool. 1) threeChunks) = 3 \<and>
   distinct (map pageNumber' (extractStreaming secondFails exampleWrapError (\<lambda>pool. 1) threeChunks)) \<and>
   set (map pageNumber' (extractStreaming secondFails exampleWrapError (\<lambda>pool. 1) threeChunks))
     = {1, 2, 3}"
proof -
  note main = extractStreaming_each_once [of secondFails exampleWrapError "\<lambda>pool. 1" threeChunks]
  have d: "distinct (map pageNumber threeChunks)" unfolding threeChunks_def by simp
  have n: "map pageNumber' (extractStreaming secondFails exampleWrapError (\<lambda>pool. 1) threeChunks)
      = [2, 3, 1]"
    unfolding threeChunks_def secondFails_def exampleWrapError_def factItem_def by code_simp
  have l: "length threeChunks = 3" "set (map pageNumber threeChunks) = {1, 2, 3}"
    unfolding threeChunks_def by auto
  from main d have "distinct (map pageNumber' (extractStreaming secondFails exampleWrapError (\<lambda>pool. 1) threeChunks))"
    "set (map pageNumber' (extractStreaming secondFails exampleWrapError (\<lambda>pool. 1) threeChunks))
       = set (map pageNumber threeChunks)"
    "length (extractStreaming secondFails exampleWrapError (\<lambda>pool. 1) threeChunks) = length threeChunks"
    by blast+
  with n l show ?thesis by (simp only:) 
qed

section \<open>Properties of the scheduler\<close>

lemma step_bound:
  assumes "step config s e = Some s'" "inFlight s \<le> maxConcurrent config"
  shows "inFlight s' \<le> maxConcurrent config"
  using assms by (cases e) (auto simp: admissible_def split: if_splits)

lemma run_bound:
  assumes "run config s es = Some states" "inFlight s \<le> maxConcurrent config"
  shows "\<forall>s' \<in> set states. inFlight s' \<le> maxConcurrent config"
  using assms
proof (induction es arbitrary: s states)
  case Nil
  then show ?case by simp
next
  case (Cons e es)
  from Cons.prems(1) obtain s1 rest where s1: "step config s e = Some s1"
    and rest: "run config s1 es = Some rest" and states: "states = s1 # rest"
    by (auto split: option.splits)
  from step_bound [OF s1 Cons.prems(2)] have b: "inFlight s1 \<le> maxConcurrent config" .
  from Cons.IH [OF rest b] b states show ?case by simp
qed

lemma peakInFlight_bound:
  "(\<forall>s \<in> set states. inFlight s \<le> k) \<Longrightarrow> peakInFlight states \<le> k"
  by (induction states) (simp_all add: peakInFlight_def)

lemma peakInFlight_ge: "s \<in> set states \<Longrightarrow> inFlight s \<le> peakInFlight states"
  by (induction states) (auto simp: peakInFlight_def)

lemma run_admits:
  assumes "minStartSpacing config = 0" "inFlight s + j \<le> maxConcurrent config"
    and "lastStart s = None \<or> lastStart s = Some 0"
  shows "\<exists>states. run config s (replicate j (Admit 0)) = Some states \<and>
           map inFlight states = map (\<lambda>i. inFlight s + Suc i) [0..<j]"
  using assms(2,3)
proof (induction j arbitrary: s)
  case 0
  show ?case by simp
next
  case (Suc j)
  let ?s1 = "\<lparr> inFlight = inFlight s + 1, lastStart = Some 0 \<rparr>"
  from Suc.prems assms(1) have adm: "admissible config s 0"
    by (auto simp: admissible_def)
  then have st: "step config s (Admit 0) = Some ?s1" by simp
  from Suc.prems have "inFlight ?s1 + j \<le> maxConcurrent config"
    "lastStart ?s1 = None \<or> lastStart ?s1 = Some 0" by simp_all
  from Suc.IH [OF this] obtain states where
    r: "run config ?s1 (replicate j (Admit 0)) = Some states"
    and m: "map inFlight states = map (\<lambda>i. inFlight ?s1 + Suc i) [0..<j]" by blast
  have "[0..<Suc j] = 0 # map Suc [0..<j]"
    by (simp add: upt_conv_Cons map_Suc_upt del: upt_Suc)
  then have "map (\<lambda>i. inFlight s + Suc i) [0..<Suc j]
      = (inFlight s + 1) # map (\<lambda>i. inFlight ?s1 + Suc i) [0..<j]"
    by (simp add: comp_def del: upt_Suc)
  with st r m show ?case by (simp del: upt_Suc step.simps)
qed

lemma run_admits_refused:
  assumes "inFlight s + j = maxConcurrent config"
  shows "run config s (replicate (Suc j) (Admit now)) = None"
  using assms
proof (induction j arbitrary: s)
  case 0
  then show ?case by (simp add: admissible_def)
next
  case (Suc j)
  show ?case
  proof (cases "step config s (Admit now)")
    case None
    then show ?thesis by simp
  next
    case (Some s1)
    then have "inFlight s1 = inFlight s + 1" by (auto split: if_splits)
    with Suc.prems have "inFlight s1 + j = maxConcurrent config" by simp
    from Suc.IH [OF this] Some show ?thesis by simp
  qed
qed

lemma scheduler_bound_attained:
  assumes "minStartSpacing config = 0" "0 < maxConcurrent config"
  shows "\<exists>states. run config newScheduler (replicate (maxConcurrent config) (Admit 0)) = Some states \<and>
           peakInFlight states = maxConcurrent config"
proof -
  let ?k = "maxConcurrent config"
  have "inFlight newScheduler + ?k \<le> ?k" "lastStart newScheduler = None \<or> lastStart newScheduler = Some 0"
    by (simp_all add: newScheduler_def)
  from run_admits [OF assms(1) this] obtain states where
    r: "run config newScheduler (replicate ?k (Admit 0)) = Some states"
    and m: "map inFlight states = map (\<lambda>i. inFlight newScheduler + Suc i) [0..<?k]" by blast
  have "inFlight newScheduler \<le> ?k" by (simp add: newScheduler_def)
  from run_bound [OF r this] have "peakInFlight states \<le> ?k" by (rule peakInFlight_bound)
  moreover have "?k \<le> peakInFlight states"
  proof -
    from assms(2) have "?k \<in> set (map (\<lambda>i. inFlight newScheduler + Suc i) [0..<?k])"
      by (auto simp: newScheduler_def image_iff intro!: bexI [of _ "?k - 1"])
    with m have "?k \<in> set (map inFlight states)" by simp
    then obtain s where "s \<in> set states" "inFlight s = ?k" by auto
    with peakInFlight_ge show ?thesis by metis
  qed
  ultimately show ?thesis using r by auto
qed

text \<open>
  Claim C8. In every run of one scheduler instance, whatever the events and however many
  calls, no state has more than \<open>maxConcurrent\<close> calls in flight. The bound is met: without
  spacing, \<open>maxConcurrent\<close> callers asking at once are all admitted, and one more is refused
  at any time as long as none has completed. In the scenario of five chunks with
  \<open>maxConcurrent = 2\<close> and no spacing the largest number in flight over the run is 2.
\<close>

theorem scheduler_inFlight_bound:
  "(\<forall>es states. run config newScheduler es = Some states \<longrightarrow>
      (\<forall>s \<in> set states. inFlight s \<le> maxConcurrent config) \<and>
      peakInFlight states \<le> maxConcurrent config) \<and>
   (minStartSpacing config = 0 \<and> 0 < maxConcurrent config \<longrightarrow>
      (\<exists>states. run config newScheduler (replicate (maxConcurrent config) (Admit 0)) = Some states \<and>
                peakInFlight states = maxConcurrent config)) \<and>
   run config newScheduler (replicate (Suc (maxConcurrent config)) (Admit now)) = None \<and>
   map_option peakInFlight (run scenarioConfig newScheduler scenarioEvents) = Some 2"
proof (intro conjI allI impI)
  fix es states assume r: "run config newScheduler es = Some states"
  have "inFlight newScheduler \<le> maxConcurrent config" by (simp add: newScheduler_def)
  from run_bound [OF r this]
  show b: "\<forall>s \<in> set states. inFlight s \<le> maxConcurrent config" .
  from peakInFlight_bound [OF b] show "peakInFlight states \<le> maxConcurrent config" .
next
  assume "minStartSpacing config = 0 \<and> 0 < maxConcurrent config"
  then show "\<exists>states. run config newScheduler (replicate (maxConcurrent config) (Admit 0)) = Some states \<and>
                peakInFlight states = maxConcurrent config"
    using scheduler_bound_attained by blast
next
  have "inFlight newScheduler + maxConcurrent config = maxConcurrent config"
    by (simp add: newScheduler_def)
  then show "run config newScheduler (replicate (Suc (maxConcurrent config)) (Admit now)) = None"
    by (rule run_admits_refused)
next
  show "map_option peakInFlight (run scenarioConfig newScheduler scenarioEvents) = Some 2"
    by (simp add: scenarioConfig_def newScheduler_def scenarioEvents_def admissible_def
        peakInFlight_def)
qed

theorem scheduler_inFlight_bound_witness:
  "map_option (map inFlight) (run scenarioConfig newScheduler scenarioEvents)
     = Some [1, 2, 1, 2, 1, 2, 1, 2, 1, 0] \<and>
   list_all (\<lambda>n. n \<le> maxConcurrent scenarioConfig) [1, 2, 1, 2, 1, 2, 1, 2, 1, 0]"
proof -
  obtain states where r: "run scenarioConfig newScheduler scenarioEvents = Some states"
    and i: "map inFlight states = [1, 2, 1, 2, 1, 2, 1, 2, 1, 0]"
    by (simp add: scenarioConfig_def newScheduler_def scenarioEvents_def admissible_def)
  from scheduler_inFlight_bound [of scenarioConfig, THEN conjunct1, THEN spec, THEN spec,
    THEN mp, OF r, THEN conjunct1]
  have "\<forall>n \<in> set (map inFlight states). n \<le> maxConcurrent scenarioConfig" by simp
  with i have "list_all (\<lambda>n. n \<le> maxConcurrent scenarioConfig) [1, 2, 1, 2, 1, 2, 1, 2, 1, 0]"
    by (simp only: list_all_iff)
  with r i show ?thesis by simp
qed

end
